theory Spec2Isabelle
  imports Complex_Main
begin

section \<open>JavaScript strings\<close>

text \<open>
  A JavaScript string is a sequence of UTF-16 code units and \<open>length\<close> counts code
  units. The model writes a string as a \<^typ>\<open>string\<close>, one \<^typ>\<open>char\<close> per code unit
  (code units below 256). Indices and lengths are JavaScript numbers holding integers;
  they are \<^typ>\<open>int\<close> here, so that a subtraction can go below zero as it does in the code.
\<close>

definition substring :: "string \<Rightarrow> int \<Rightarrow> int \<Rightarrow> string" where
  \<comment> \<open>\<open>s.substring(a, b)\<close>: both ends clamped to \<open>[0, length]\<close>, swapped when \<open>a > b\<close>.\<close>
  "substring s a b =
     (let n = int (length s);
          a' = min (max a 0) n;
          b' = min (max b 0) n;
          lo = min a' b';
          hi = max a' b'
      in take (nat (hi - lo)) (drop (nat lo) s))"

definition slice :: "string \<Rightarrow> int \<Rightarrow> string" where
  \<comment> \<open>\<open>s.slice(k)\<close>: a negative \<open>k\<close> counts from the end.\<close>
  "slice s k =
     (let n = int (length s);
          from = (if k < 0 then max (n + k) 0 else min k n)
      in drop (nat from) s)"

fun toLowerCaseChar :: "char \<Rightarrow> char" where
  "toLowerCaseChar c =
     (let n = (of_char c :: nat)
      in if (65 \<le> n \<and> n \<le> 90) \<or> (192 \<le> n \<and> n \<le> 222 \<and> n \<noteq> 215)
         then char_of (n + 32) else c)"

definition toLowerCase :: "string \<Rightarrow> string" where
  "toLowerCase s = map toLowerCaseChar s"

fun startsWith :: "string \<Rightarrow> string \<Rightarrow> bool" where
  "startsWith s [] = True"
| "startsWith [] (p # ps) = False"
| "startsWith (c # cs) (p # ps) = (c = p \<and> startsWith cs ps)"

fun str_includes :: "string \<Rightarrow> string \<Rightarrow> bool" where
  \<comment> \<open>\<open>s.includes(pattern)\<close>\<close>
  "str_includes [] p = startsWith [] p"
| "str_includes (c # cs) p = (startsWith (c # cs) p \<or> str_includes cs p)"

section \<open>Regular expressions\<close>

text \<open>
  The regular expressions of the source are written with matchers in continuation
  style: a matcher takes the matcher \<open>K\<close> of the rest of the pattern and the text at the
  current position, and says whether the pattern followed by the rest matches there.
  Every test of the source only asks whether a match exists, so the order in which a
  backtracking engine tries the alternatives does not show.
\<close>

definition accept :: "string \<Rightarrow> bool" where
  "accept s = True"

fun rx_char :: "(char \<Rightarrow> bool) \<Rightarrow> (string \<Rightarrow> bool) \<Rightarrow> string \<Rightarrow> bool" where
  \<comment> \<open>one character of the class \<open>C\<close>\<close>
  "rx_char C K [] = False"
| "rx_char C K (c # cs) = (C c \<and> K cs)"

fun rx_star :: "(char \<Rightarrow> bool) \<Rightarrow> (string \<Rightarrow> bool) \<Rightarrow> string \<Rightarrow> bool" where
  \<comment> \<open>\<open>C*\<close>\<close>
  "rx_star C K [] = K []"
| "rx_star C K (c # cs) = (K (c # cs) \<or> (C c \<and> rx_star C K cs))"

definition rx_plus :: "(char \<Rightarrow> bool) \<Rightarrow> (string \<Rightarrow> bool) \<Rightarrow> string \<Rightarrow> bool" where
  \<comment> \<open>\<open>C+\<close>\<close>
  "rx_plus C K = rx_char C (rx_star C K)"

fun rx_atLeast :: "nat \<Rightarrow> (char \<Rightarrow> bool) \<Rightarrow> (string \<Rightarrow> bool) \<Rightarrow> string \<Rightarrow> bool" where
  \<comment> \<open>\<open>C{n,}\<close>\<close>
  "rx_atLeast 0 C K s = rx_star C K s"
| "rx_atLeast (Suc n) C K s = rx_char C (rx_atLeast n C K) s"

fun rx_search :: "(string \<Rightarrow> bool) \<Rightarrow> string \<Rightarrow> bool" where
  \<comment> \<open>an unanchored pattern is tried at every position\<close>
  "rx_search K [] = K []"
| "rx_search K (c # cs) = (K (c # cs) \<or> rx_search K cs)"

definition rx_startOrNewline :: "(string \<Rightarrow> bool) \<Rightarrow> string \<Rightarrow> bool" where
  \<comment> \<open>\<open>(^|\n)\<close> followed by \<open>K\<close>, searched in the whole text; without the \<open>m\<close> flag
      \<open>^\<close> is the start of the text only\<close>
  "rx_startOrNewline K s = (K s \<or> rx_search (rx_char (\<lambda>c. c = CHR 0x0A) K) s)"

definition isSpace :: "char \<Rightarrow> bool" where
  \<comment> \<open>\<open>\s\<close>: tab, line feed, vertical tab, form feed, carriage return, space, no-break space\<close>
  "isSpace c = (of_char c \<in> {9, 10, 11, 12, 13, 32, 160 :: nat})"

definition isLineTerminator :: "char \<Rightarrow> bool" where
  \<comment> \<open>what \<open>.\<close> does not match\<close>
  "isLineTerminator c = (c = CHR 0x0A \<or> c = CHR 0x0D)"

definition isDigit :: "char \<Rightarrow> bool" where
  \<comment> \<open>\<open>\d\<close>\<close>
  "isDigit c = (48 \<le> (of_char c :: nat) \<and> (of_char c :: nat) \<le> 57)"

definition inRange :: "char \<Rightarrow> char \<Rightarrow> char \<Rightarrow> bool" where
  \<comment> \<open>a class range \<open>[lo-hi]\<close>\<close>
  "inRange lo hi c = ((of_char lo :: nat) \<le> of_char c \<and> (of_char c :: nat) \<le> of_char hi)"

fun countMatches :: "string \<Rightarrow> string \<Rightarrow> nat" where
  \<comment> \<open>\<open>(s.match(/p/g) ?? []).length\<close> for a literal, non-empty \<open>p\<close>: the matches are taken
      from left to right and do not overlap\<close>
  "countMatches p [] = 0"
| "countMatches p (c # cs) =
     (if p \<noteq> [] \<and> startsWith (c # cs) p
      then Suc (countMatches p (drop (length p) (c # cs)))
      else countMatches p cs)"

section \<open>The loop detection service\<close>

text \<open>
  \<open>packages/core/src/services/loopDetectionService.ts\<close>. The class is a record of its
  fields and every method takes the record and returns the new one beside its result.
  \<open>createHash('sha256')\<close> and \<open>JSON.stringify\<close> are library functions: they are the
  parameters \<open>H\<close> and \<open>J\<close> of the methods that call them, and nothing is assumed of them.
  \<open>logLoopDetected\<close> hands an event to the telemetry sink; the model keeps the events it
  was given in the field \<open>telemetry\<close>.
\<close>

abbreviation TOOL_CALL_LOOP_THRESHOLD :: nat where
  "TOOL_CALL_LOOP_THRESHOLD \<equiv> 5"

abbreviation CONTENT_LOOP_THRESHOLD :: nat where
  "CONTENT_LOOP_THRESHOLD \<equiv> 4"

abbreviation CONTENT_CHUNK_SIZE :: int where
  "CONTENT_CHUNK_SIZE \<equiv> 20"

abbreviation MAX_HISTORY_LENGTH :: int where
  "MAX_HISTORY_LENGTH \<equiv> 1000"

abbreviation DEFAULT_LLM_CHECK_INTERVAL :: nat where
  "DEFAULT_LLM_CHECK_INTERVAL \<equiv> 3"

datatype LoopType =
  CONSECUTIVE_IDENTICAL_TOOL_CALLS
  | CHANTING_IDENTICAL_SENTENCES
  | LLM_DETECTED_LOOP

record LoopDetectedEvent =
  loop_type :: LoopType
  prompt_id :: string

record 'a ToolCall =
  name :: string
  args :: 'a

datatype 'a ServerGeminiStreamEvent =
  ToolCallRequest "'a ToolCall"
  | Content string
  | OtherEvent

record LoopDetectionService =
  promptId :: string
  lastToolCallKey :: "string option"
  toolCallRepetitionCount :: nat
  streamContentHistory :: string
  contentStats :: "string \<Rightarrow> int list option"
  lastContentIndex :: int
  loopDetected :: bool
  inCodeBlock :: bool
  turnsInCurrentPrompt :: nat
  llmCheckInterval :: nat
  lastCheckTurn :: nat
  loopRecoveryAttempts :: nat
  telemetry :: "LoopDetectedEvent list"

definition newService :: LoopDetectionService where
  \<comment> \<open>the field initialisers of the class\<close>
  "newService =
     \<lparr> promptId = [], lastToolCallKey = None, toolCallRepetitionCount = 0,
       streamContentHistory = [], contentStats = Map.empty, lastContentIndex = 0,
       loopDetected = False, inCodeBlock = False, turnsInCurrentPrompt = 0,
       llmCheckInterval = DEFAULT_LLM_CHECK_INTERVAL, lastCheckTurn = 0,
       loopRecoveryAttempts = 0, telemetry = [] \<rparr>"

definition logLoopDetected :: "LoopType \<Rightarrow> LoopDetectionService \<Rightarrow> LoopDetectionService" where
  "logLoopDetected t s =
     s\<lparr>telemetry := telemetry s @ [\<lparr>loop_type = t, prompt_id = promptId s\<rparr>]\<rparr>"

definition getToolCallKey :: "(string \<Rightarrow> string) \<Rightarrow> ('a \<Rightarrow> string) \<Rightarrow> 'a ToolCall \<Rightarrow> string" where
  "getToolCallKey H J toolCall =
     (let argsString = J (args toolCall);
          keyString = name toolCall @ '':'' @ argsString
      in H keyString)"

definition resetToolCallCount :: "LoopDetectionService \<Rightarrow> LoopDetectionService" where
  "resetToolCallCount s = s\<lparr>lastToolCallKey := None, toolCallRepetitionCount := 0\<rparr>"

definition resetContentTracking :: "bool \<Rightarrow> LoopDetectionService \<Rightarrow> LoopDetectionService" where
  "resetContentTracking resetHistory s =
     (let s1 = (if resetHistory then s\<lparr>streamContentHistory := []\<rparr> else s)
      in s1\<lparr>contentStats := Map.empty, lastContentIndex := 0\<rparr>)"

definition resetLlmCheckTracking :: "LoopDetectionService \<Rightarrow> LoopDetectionService" where
  "resetLlmCheckTracking s =
     s\<lparr>turnsInCurrentPrompt := 0, llmCheckInterval := DEFAULT_LLM_CHECK_INTERVAL,
       lastCheckTurn := 0\<rparr>"

definition reset :: "string \<Rightarrow> LoopDetectionService \<Rightarrow> LoopDetectionService" where
  "reset pid s =
     (let s1 = s\<lparr>promptId := pid\<rparr>;
          s2 = resetToolCallCount s1;
          s3 = resetContentTracking True s2;
          s4 = resetLlmCheckTracking s3
      in s4\<lparr>loopDetected := False, loopRecoveryAttempts := 0\<rparr>)"

definition checkToolCallLoop ::
  "(string \<Rightarrow> string) \<Rightarrow> ('a \<Rightarrow> string) \<Rightarrow> 'a ToolCall \<Rightarrow> LoopDetectionService
    \<Rightarrow> bool \<times> LoopDetectionService" where
  "checkToolCallLoop H J toolCall s =
     (let key = getToolCallKey H J toolCall;
          s1 = (if lastToolCallKey s = Some key
                then s\<lparr>toolCallRepetitionCount := toolCallRepetitionCount s + 1\<rparr>
                else s\<lparr>lastToolCallKey := Some key, toolCallRepetitionCount := 1\<rparr>)
      in if toolCallRepetitionCount s1 \<ge> TOOL_CALL_LOOP_THRESHOLD
         then (True, logLoopDetected CONSECUTIVE_IDENTICAL_TOOL_CALLS s1)
         else (False, s1))"

subsection \<open>The tests of \<open>checkContentLoop\<close> on the incoming text\<close>

definition fence :: string where
  \<comment> \<open>three backticks\<close>
  "fence = [CHR 0x60, CHR 0x60, CHR 0x60]"

definition numFences :: "string \<Rightarrow> nat" where
  \<comment> \<open>\<open>(content.match(/```/g) ?? []).length\<close>\<close>
  "numFences content = countMatches fence content"

definition hasTable :: "string \<Rightarrow> bool" where
  \<comment> \<open>\<open>/(^|\n)\s*(\|.*\||[|+-]{3,})/.test(content)\<close>\<close>
  "hasTable content =
     rx_startOrNewline
       (rx_star isSpace
         (\<lambda>t. rx_char (\<lambda>c. c = CHR ''|'')
                 (rx_star (\<lambda>c. \<not> isLineTerminator c) (rx_char (\<lambda>c. c = CHR ''|'') accept)) t
              \<or> rx_atLeast 3 (\<lambda>c. c = CHR ''|'' \<or> c = CHR ''+'' \<or> c = CHR ''-'') accept t))
       content"

definition hasListItem :: "string \<Rightarrow> bool" where
  \<comment> \<open>\<open>/(^|\n)\s*[*-+]\s/.test(content) || /(^|\n)\s*\d+\.\s/.test(content)\<close>;
      the class \<open>[*-+]\<close> is the range from \<open>*\<close> to \<open>+\<close>\<close>
  "hasListItem content =
     (rx_startOrNewline
        (rx_star isSpace (rx_char (inRange (CHR ''*'') (CHR ''+'')) (rx_char isSpace accept)))
        content
      \<or> rx_startOrNewline
        (rx_star isSpace
          (rx_plus isDigit (rx_char (\<lambda>c. c = CHR ''.'') (rx_char isSpace accept))))
        content)"

definition hasHeading :: "string \<Rightarrow> bool" where
  \<comment> \<open>\<open>/(^|\n)#+\s/.test(content)\<close>\<close>
  "hasHeading content =
     rx_startOrNewline (rx_plus (\<lambda>c. c = CHR ''#'') (rx_char isSpace accept)) content"

definition hasBlockquote :: "string \<Rightarrow> bool" where
  \<comment> \<open>\<open>/(^|\n)>\s/.test(content)\<close>\<close>
  "hasBlockquote content =
     rx_startOrNewline (rx_char (\<lambda>c. c = CHR ''>'') (rx_char isSpace accept)) content"

subsection \<open>\<open>hasObviousRepetition\<close>\<close>

definition charRepeatExcluded :: "char \<Rightarrow> bool" where
  \<comment> \<open>the characters the class \<open>[^#\-*_=\s.,'"()]\<close> leaves out\<close>
  "charRepeatExcluded c =
     (c \<in> {CHR ''#'', CHR ''-'', CHR ''*'', CHR ''_'', CHR ''='', CHR ''.'', CHR '','',
            CHR 0x27, CHR 0x22, CHR ''('', CHR '')''} \<or> isSpace c)"

definition charRepeatPattern :: "string \<Rightarrow> bool" where
  \<comment> \<open>\<open>text.match(/([^#\-*_=\s.,'"()])\1{15,}/g)\<close> is not null: a character of the
      class, then the same character at least fifteen times more\<close>
  "charRepeatPattern text =
     rx_search
       (\<lambda>t. case t of
              [] \<Rightarrow> False
            | c # cs \<Rightarrow> \<not> charRepeatExcluded c \<and> rx_atLeast 15 (\<lambda>d. d = c) accept cs)
       text"

fun rx_plus_starStarQuote :: "(string \<Rightarrow> bool) \<Rightarrow> string \<Rightarrow> bool" where
  \<comment> \<open>\<open>(\*\*")+\<close>\<close>
  "rx_plus_starStarQuote K (a # b # c # r) =
     (a = CHR ''*'' \<and> b = CHR ''*'' \<and> c = CHR 0x22 \<and> (K r \<or> rx_plus_starStarQuote K r))"
| "rx_plus_starStarQuote K r = False"

definition brokenQuotePattern :: "string \<Rightarrow> bool" where
  \<comment> \<open>\<open>/(\*\*")+\*\*"(\*\*")+/g.test(text)\<close>, on a regular expression made anew for each
      text, so that the search starts at the first character\<close>
  "brokenQuotePattern text =
     rx_search
       (rx_plus_starStarQuote
         (rx_char (\<lambda>c. c = CHR ''*'')
           (rx_char (\<lambda>c. c = CHR ''*'')
             (rx_char (\<lambda>c. c = CHR 0x22) (rx_plus_starStarQuote accept)))))
       text"

definition quoteCount :: "string \<Rightarrow> nat" where
  \<comment> \<open>\<open>(text.match(/"/g) || []).length\<close>\<close>
  "quoteCount text = countMatches [CHR 0x22] text"

definition starCount :: "string \<Rightarrow> nat" where
  \<comment> \<open>\<open>(text.match(/\*/g) || []).length\<close>\<close>
  "starCount text = countMatches [CHR ''*''] text"

definition denseQuotesAndStars :: "string \<Rightarrow> bool" where
  \<comment> \<open>the third test of the loop body; the products stay far from the integers they
      are compared with, so the rounding of \<open>text.length * 0.6\<close> does not show\<close>
  "denseQuotesAndStars text =
     (let suspiciousLength = 100
      in int (length text) > suspiciousLength
         \<and> real (quoteCount text) > real (length text) * 0.6
         \<and> real (starCount text) > real (length text) * 0.6)"

definition textsToCheck :: "string \<Rightarrow> LoopDetectionService \<Rightarrow> string list" where
  "textsToCheck content s =
     [content] @
     (if length (streamContentHistory s) > 0
      then (let recentHistory = slice (streamContentHistory s) (- 300)
            in [recentHistory, recentHistory @ content])
      else [])"

definition hasObviousRepetition :: "string \<Rightarrow> LoopDetectionService \<Rightarrow> bool" where
  \<comment> \<open>the loop returns true at the first text that passes one of the three tests\<close>
  "hasObviousRepetition content s =
     list_ex (\<lambda>text. charRepeatPattern text \<or> brokenQuotePattern text \<or> denseQuotesAndStars text)
       (textsToCheck content s)"

subsection \<open>History truncation and chunk analysis\<close>

definition truncateAndUpdate :: "LoopDetectionService \<Rightarrow> LoopDetectionService" where
  \<comment> \<open>the loop over \<open>contentStats.entries()\<close> sets or deletes the entry it visits, so it
      rewrites every entry on its own\<close>
  "truncateAndUpdate s =
     (if int (length (streamContentHistory s)) \<le> MAX_HISTORY_LENGTH then s
      else
        let truncationAmount = int (length (streamContentHistory s)) - MAX_HISTORY_LENGTH
        in s\<lparr>streamContentHistory := slice (streamContentHistory s) truncationAmount,
             lastContentIndex := max 0 (lastContentIndex s - truncationAmount),
             contentStats :=
               (\<lambda>hash. case contentStats s hash of
                    None \<Rightarrow> None
                  | Some oldIndices \<Rightarrow>
                      (let adjustedIndices =
                             filter (\<lambda>index. index \<ge> 0)
                               (map (\<lambda>index. index - truncationAmount) oldIndices)
                       in if length adjustedIndices > 0 then Some adjustedIndices else None))\<rparr>)"

definition hasMoreChunksToProcess :: "LoopDetectionService \<Rightarrow> bool" where
  "hasMoreChunksToProcess s =
     (lastContentIndex s + CONTENT_CHUNK_SIZE \<le> int (length (streamContentHistory s)))"

definition isActualContentMatch :: "string \<Rightarrow> int option \<Rightarrow> LoopDetectionService \<Rightarrow> bool" where
  \<comment> \<open>\<open>originalIndex\<close> is \<open>existingIndices[0]\<close>, undefined (\<open>None\<close>) for an empty array;
      \<open>substring(undefined, NaN)\<close> is the empty string\<close>
  "isActualContentMatch currentChunk originalIndex s =
     (let originalChunk =
            (case originalIndex of
               None \<Rightarrow> []
             | Some i \<Rightarrow> substring (streamContentHistory s) i (i + CONTENT_CHUNK_SIZE))
      in originalChunk = currentChunk)"

definition isLoopDetectedForChunk ::
  "string \<Rightarrow> string \<Rightarrow> LoopDetectionService \<Rightarrow> bool \<times> LoopDetectionService" where
  "isLoopDetectedForChunk chunk hash s =
     (case contentStats s hash of
        None \<Rightarrow> (False, s\<lparr>contentStats := (contentStats s)(hash \<mapsto> [lastContentIndex s])\<rparr>)
      | Some existingIndices \<Rightarrow>
          if \<not> isActualContentMatch chunk
                 (case existingIndices of [] \<Rightarrow> None | i # _ \<Rightarrow> Some i) s
          then (False, s)
          else
            let pushed = existingIndices @ [lastContentIndex s];
                s1 = s\<lparr>contentStats := (contentStats s)(hash \<mapsto> pushed)\<rparr>
            in if length pushed < CONTENT_LOOP_THRESHOLD then (False, s1)
               else
                 let recentIndices = drop (length pushed - CONTENT_LOOP_THRESHOLD) pushed;
                     totalDistance = last recentIndices - hd recentIndices;
                     averageDistance = real_of_int totalDistance / real (CONTENT_LOOP_THRESHOLD - 1);
                     maxAllowedDistance = real_of_int CONTENT_CHUNK_SIZE * 2.0
                 in (averageDistance \<le> maxAllowedDistance, s1))"

lemma isLoopDetectedForChunk_frame:
  "streamContentHistory (snd (isLoopDetectedForChunk chunk hash s)) = streamContentHistory s
   \<and> lastContentIndex (snd (isLoopDetectedForChunk chunk hash s)) = lastContentIndex s"
  by (simp add: isLoopDetectedForChunk_def Let_def split: option.split)

function analyzeContentChunksForLoop ::
  "(string \<Rightarrow> string) \<Rightarrow> LoopDetectionService \<Rightarrow> bool \<times> LoopDetectionService" where
  "analyzeContentChunksForLoop H s =
     (if hasMoreChunksToProcess s then
        let currentChunk =
              substring (streamContentHistory s) (lastContentIndex s)
                (lastContentIndex s + CONTENT_CHUNK_SIZE);
            chunkHash = H currentChunk;
            r = isLoopDetectedForChunk currentChunk chunkHash s
        in if fst r then (True, logLoopDetected CHANTING_IDENTICAL_SENTENCES (snd r))
           else analyzeContentChunksForLoop H
                  ((snd r)\<lparr>lastContentIndex := lastContentIndex (snd r) + 1\<rparr>)
      else (False, s))"
  by pat_completeness auto
termination
  by (relation "measure (\<lambda>(H, s). nat (int (length (streamContentHistory s)) - lastContentIndex s))")
     (auto simp: hasMoreChunksToProcess_def isLoopDetectedForChunk_frame)

declare analyzeContentChunksForLoop.simps [simp del]

definition checkContentLoop ::
  "(string \<Rightarrow> string) \<Rightarrow> string \<Rightarrow> LoopDetectionService \<Rightarrow> bool \<times> LoopDetectionService" where
  "checkContentLoop H content s =
     (let fences = numFences content;
          s1 = (if fences \<noteq> 0 \<or> hasTable content \<or> hasListItem content
                   \<or> hasHeading content \<or> hasBlockquote content
                then resetContentTracking True s else s);
          wasInCodeBlock = inCodeBlock s1;
          s2 = s1\<lparr>inCodeBlock := (if fences mod 2 = 0 then inCodeBlock s1 else \<not> inCodeBlock s1)\<rparr>
      in if wasInCodeBlock \<or> inCodeBlock s2 then (False, s2)
         else
           let s3 = s2\<lparr>streamContentHistory := streamContentHistory s2 @ content\<rparr>
           in if hasObviousRepetition content s3 then (True, s3)
              else analyzeContentChunksForLoop H (truncateAndUpdate s3))"

definition addAndCheck ::
  "(string \<Rightarrow> string) \<Rightarrow> ('a \<Rightarrow> string) \<Rightarrow> 'a ServerGeminiStreamEvent \<Rightarrow> LoopDetectionService
    \<Rightarrow> bool \<times> LoopDetectionService" where
  "addAndCheck H J event s =
     (if loopDetected s then (True, s)
      else
        let s' = (case event of
                    ToolCallRequest toolCall \<Rightarrow>
                      (let r = checkToolCallLoop H J toolCall (resetContentTracking True s)
                       in (snd r)\<lparr>loopDetected := fst r\<rparr>)
                  | Content content \<Rightarrow>
                      (let r = checkContentLoop H content s
                       in (snd r)\<lparr>loopDetected := fst r\<rparr>)
                  | OtherEvent \<Rightarrow> s)
        in (loopDetected s', s'))"

definition fencedBlock :: "string \<Rightarrow> string" where
  \<comment> \<open>a fenced code block as text: the fence, a line feed, the body, a line feed, the fence\<close>
  "fencedBlock body = fence @ [CHR 0x0A] @ body @ [CHR 0x0A] @ fence"

definition plainHash :: "string \<Rightarrow> string" where
  \<comment> \<open>a fingerprint function to run the model with: the text itself\<close>
  "plainHash t = t"

definition plainArgs :: "string \<Rightarrow> string" where
  \<comment> \<open>a serialisation to run the model with, for arguments that are strings\<close>
  "plainArgs a = a"

fun feed ::
  "(string \<Rightarrow> string) \<Rightarrow> ('a \<Rightarrow> string) \<Rightarrow> 'a ServerGeminiStreamEvent list \<Rightarrow> LoopDetectionService
    \<Rightarrow> bool list \<times> LoopDetectionService" where
  \<comment> \<open>the events of a stream, given to \<open>addAndCheck\<close> one after the other: the answers in
      order, and the service after the last event\<close>
  "feed H J [] s = ([], s)"
| "feed H J (e # es) s =
     (let r = addAndCheck H J e s;
          rs = feed H J es (snd r)
      in (fst r # fst rs, snd rs))"

section \<open>Local model detection\<close>

text \<open>
  \<open>isLocalModel\<close> of \<open>packages/core/src/utils/localModelUtils.ts\<close>. An optional
  argument is an \<^typ>\<open>string option\<close>, and so is the environment variable
  \<open>OPENAI_BASE_URL\<close>, which the function reads; \<open>a || b\<close> takes \<open>b\<close> when \<open>a\<close> is undefined
  or the empty string.
\<close>

definition truthy :: "string option \<Rightarrow> bool" where
  "truthy v = (case v of None \<Rightarrow> False | Some t \<Rightarrow> t \<noteq> [])"

definition localPatterns :: "string list" where
  "localPatterns =
     [''localhost'', ''127.0.0.1'', ''0.0.0.0'', ''192.168.'', ''10.0.'', ''172.16.'',
      ''local'', '':1234'', '':8080'', '':11434'', '':8000'']"

definition localModelPatterns :: "string list" where
  "localModelPatterns =
     [''local'', ''ollama'', ''llama'', ''mistral'', ''qwen'', ''codellama'', ''vicuna'',
      ''alpaca'']"

definition isLocalModel :: "string option \<Rightarrow> string option \<Rightarrow> string option \<Rightarrow> bool" where
  \<comment> \<open>the first argument is \<open>process.env['OPENAI_BASE_URL']\<close>\<close>
  "isLocalModel env baseUrl model =
     (let openaiBaseUrl =
            (if truthy baseUrl then the baseUrl else if truthy env then the env else []);
          isLocalUrl =
            list_ex (\<lambda>pattern. str_includes (toLowerCase openaiBaseUrl) pattern) localPatterns;
          isLocalModelName =
            (if truthy model
             then list_ex (\<lambda>pattern. str_includes (toLowerCase (the model)) pattern)
                    localModelPatterns
             else False)
      in isLocalUrl \<or> isLocalModelName)"

section \<open>The concurrency manager\<close>

text \<open>
  \<open>packages/core/src/utils/localModelConcurrencyManager.ts\<close>. JavaScript numbers are
  doubles: every sum, difference, product and quotient is the exact result rounded to a
  double, and a decimal literal is the double next to it. The methods that compute with
  fractions take the rounding as the parameter \<open>rnd\<close>; what JavaScript computes is the
  method at \<open>rnd = double\<close>, the rounding of IEEE 754 binary64 to the nearest double,
  ties to the even significand (results too large for a double, which round to
  infinity, are not modelled). Differences of two \<open>Date.now()\<close> values are differences
  of integers and are exact.

  A queue item holds closures over the promise that \<open>executeRequest\<close> returned, over the
  timer of its queue timeout and over the function that does the work. \<open>uid\<close> is the
  identity of the item; the manager's record keeps, next to the fields of the class,
  what the closures reach: the state of every promise, the timers that are set, the
  signals listened to, and the items whose work was started.
\<close>

definition roundTiesToEven :: "real \<Rightarrow> int" where
  \<comment> \<open>the nearest integer, the even one of the two when \<open>x\<close> is halfway\<close>
  "roundTiesToEven x =
     (let f = \<lfloor>x\<rfloor>; d = x - of_int f
      in if d < 1 / 2 then f else if d > 1 / 2 then f + 1 else if even f then f else f + 1)"

definition double :: "real \<Rightarrow> real" where
  \<comment> \<open>a double has a significand of 53 bits: for \<open>2 ^ k \<le> |x| < 2 ^ (k + 1)\<close> the doubles
      around \<open>x\<close> are the multiples of \<open>2 ^ (k - 52)\<close>, and of \<open>2 ^ (- 1074)\<close> below the
      normal range\<close>
  "double x =
     (if x = 0 then 0
      else let e = max \<lfloor>log 2 \<bar>x\<bar>\<rfloor> (- 1022) - 52
           in of_int (roundTiesToEven (x / 2 powi e)) * 2 powi e)"

record ConcurrencyConfig =
  maxConcurrentRequests :: real
  queueTimeout :: real
  adaptiveThrottling :: bool

record PartialConcurrencyConfig =
  new_maxConcurrentRequests :: "real option"
  new_queueTimeout :: "real option"
  new_adaptiveThrottling :: "bool option"

record PerformanceMetrics =
  averageResponseTime :: real
  errorRate :: real
  queueWaitTimes :: "real list"

record RequestQueueItem =
  requestId :: string
  startTime :: real
  uid :: nat

datatype RequestError =
  Error string
  | QueueTimeoutError string real
    \<comment> \<open>\<open>Request ${requestId} timed out in queue after ${queueTimeout}ms\<close>\<close>

datatype PromiseState = Pending | Fulfilled | Rejected RequestError

record LocalModelConcurrencyManager =
  activeRequests :: "string list"
  requestQueue :: "RequestQueueItem list"
  config :: ConcurrencyConfig
  performanceMetrics :: PerformanceMetrics
  promises :: "nat \<Rightarrow> PromiseState"
  timers :: "nat list"
  abortListeners :: "nat list"
  started :: "nat list"
  nextUid :: nat

definition newManager :: "ConcurrencyConfig \<Rightarrow> LocalModelConcurrencyManager" where
  "newManager cfg =
     \<lparr> activeRequests = [], requestQueue = [], config = cfg,
       performanceMetrics = \<lparr>averageResponseTime = 0, errorRate = 0, queueWaitTimes = []\<rparr>,
       promises = (\<lambda>u. Pending), timers = [], abortListeners = [], started = [],
       nextUid = 0 \<rparr>"

definition set_add :: "'a \<Rightarrow> 'a list \<Rightarrow> 'a list" where
  \<comment> \<open>\<open>Set.prototype.add\<close>, the set kept as the list of its elements in insertion order\<close>
  "set_add x xs = (if x \<in> set xs then xs else xs @ [x])"

definition set_delete :: "'a \<Rightarrow> 'a list \<Rightarrow> 'a list" where
  "set_delete x xs = filter (\<lambda>y. y \<noteq> x) xs"

definition settle :: "nat \<Rightarrow> PromiseState \<Rightarrow> LocalModelConcurrencyManager \<Rightarrow> LocalModelConcurrencyManager" where
  \<comment> \<open>the \<open>resolve\<close> and \<open>reject\<close> of a promise do nothing once it is settled\<close>
  "settle u v s = (if promises s u = Pending then s\<lparr>promises := (promises s)(u := v)\<rparr> else s)"

definition getEffectiveConcurrencyLimit ::
  "(real \<Rightarrow> real) \<Rightarrow> ConcurrencyConfig \<Rightarrow> PerformanceMetrics \<Rightarrow> real" where
  "getEffectiveConcurrencyLimit rnd cfg pm =
     (if \<not> adaptiveThrottling cfg then maxConcurrentRequests cfg
      else
        let baseLimit = maxConcurrentRequests cfg
        in if errorRate pm > rnd 0.2
           then of_int (max 1 \<lfloor>rnd (baseLimit * rnd 0.5)\<rfloor>)
           else if averageResponseTime pm > 30000
           then of_int (max 1 \<lfloor>rnd (baseLimit * rnd 0.7)\<rfloor>)
           else baseLimit)"

definition effectiveLimit :: "(real \<Rightarrow> real) \<Rightarrow> LocalModelConcurrencyManager \<Rightarrow> real" where
  \<comment> \<open>\<open>this.getEffectiveConcurrencyLimit()\<close>\<close>
  "effectiveLimit rnd s = getEffectiveConcurrencyLimit rnd (config s) (performanceMetrics s)"

definition updatePerformanceMetrics ::
  "(real \<Rightarrow> real) \<Rightarrow> real \<Rightarrow> bool \<Rightarrow> PerformanceMetrics \<Rightarrow> PerformanceMetrics" where
  "updatePerformanceMetrics rnd responseTime isError pm =
     (let errorWeight = rnd (1 / 20);
          pm1 = pm\<lparr>errorRate :=
                  rnd (rnd (errorRate pm * rnd (1 - errorWeight))
                       + (if isError then errorWeight else 0))\<rparr>
      in if \<not> isError \<and> responseTime > 0
         then
           let timeWeight = rnd 0.1
           in pm1\<lparr>averageResponseTime :=
                    rnd (rnd (averageResponseTime pm1 * rnd (1 - timeWeight))
                         + rnd (responseTime * timeWeight))\<rparr>
         else pm1)"

definition recordSuccess ::
  "(real \<Rightarrow> real) \<Rightarrow> real \<Rightarrow> LocalModelConcurrencyManager \<Rightarrow> LocalModelConcurrencyManager" where
  "recordSuccess rnd responseTime s =
     s\<lparr>performanceMetrics := updatePerformanceMetrics rnd responseTime False (performanceMetrics s)\<rparr>"

definition recordError ::
  "(real \<Rightarrow> real) \<Rightarrow> LocalModelConcurrencyManager \<Rightarrow> LocalModelConcurrencyManager" where
  "recordError rnd s =
     s\<lparr>performanceMetrics := updatePerformanceMetrics rnd 0 True (performanceMetrics s)\<rparr>"

definition removeFromQueue :: "string \<Rightarrow> LocalModelConcurrencyManager \<Rightarrow> LocalModelConcurrencyManager" where
  \<comment> \<open>\<open>findIndex\<close> and \<open>splice\<close>: the first item of that id\<close>
  "removeFromQueue rid s =
     (case find (\<lambda>item. requestId item = rid) (requestQueue s) of
        None \<Rightarrow> s
      | Some item \<Rightarrow> s\<lparr>requestQueue := remove1 item (requestQueue s)\<rparr>)"

definition removeActiveRequest :: "string \<Rightarrow> LocalModelConcurrencyManager \<Rightarrow> LocalModelConcurrencyManager" where
  "removeActiveRequest rid s = s\<lparr>activeRequests := set_delete rid (activeRequests s)\<rparr>"

function processQueue ::
  "(real \<Rightarrow> real) \<Rightarrow> real \<Rightarrow> LocalModelConcurrencyManager \<Rightarrow> LocalModelConcurrencyManager" where
  \<comment> \<open>\<open>now\<close> is \<open>Date.now()\<close>. On admission the timer of the item is cleared (\<open>cleanup\<close>) and
      \<open>executeRequestAsync\<close> calls the work function, which returns a promise; the
      settling of that promise is a later event (\<open>workSucceeded\<close>, \<open>workFailed\<close>)\<close>
  "processQueue rnd now s =
     (if real (length (activeRequests s)) < effectiveLimit rnd s \<and> length (requestQueue s) > 0
      then
        let queueItem = hd (requestQueue s);
            s1 = s\<lparr>requestQueue := tl (requestQueue s)\<rparr>;
            queueWaitTime = now - startTime queueItem;
            waits = queueWaitTimes (performanceMetrics s1) @ [queueWaitTime];
            s2 = s1\<lparr>performanceMetrics := (performanceMetrics s1)
                      \<lparr>queueWaitTimes := (if length waits > 100 then tl waits else waits)\<rparr>\<rparr>;
            s3 = s2\<lparr>activeRequests := set_add (requestId queueItem) (activeRequests s2)\<rparr>;
            s4 = s3\<lparr>timers := set_delete (uid queueItem) (timers s3)\<rparr>;
            s5 = s4\<lparr>started := started s4 @ [uid queueItem]\<rparr>
        in processQueue rnd now s5
      else s)"
  by pat_completeness auto
termination
  by (relation "measure (\<lambda>(rnd, now, s). length (requestQueue s))") auto

declare processQueue.simps [simp del]

definition itemResolve ::
  "(real \<Rightarrow> real) \<Rightarrow> real \<Rightarrow> RequestQueueItem \<Rightarrow> LocalModelConcurrencyManager
    \<Rightarrow> LocalModelConcurrencyManager" where
  \<comment> \<open>the \<open>resolve\<close> closure of a queue item\<close>
  "itemResolve rnd now item s =
     (let s1 = removeActiveRequest (requestId item) s;
          s2 = recordSuccess rnd (now - startTime item) s1;
          s3 = settle (uid item) Fulfilled s2
      in processQueue rnd now s3)"

definition itemReject ::
  "(real \<Rightarrow> real) \<Rightarrow> real \<Rightarrow> RequestQueueItem \<Rightarrow> RequestError \<Rightarrow> LocalModelConcurrencyManager
    \<Rightarrow> LocalModelConcurrencyManager" where
  \<comment> \<open>the \<open>reject\<close> closure of a queue item\<close>
  "itemReject rnd now item err s =
     (let s1 = removeActiveRequest (requestId item) s;
          s2 = recordError rnd s1;
          s3 = settle (uid item) (Rejected err) s2
      in processQueue rnd now s3)"

definition executeRequest ::
  "(real \<Rightarrow> real) \<Rightarrow> real \<Rightarrow> string \<Rightarrow> bool \<Rightarrow> LocalModelConcurrencyManager
    \<Rightarrow> LocalModelConcurrencyManager" where
  \<comment> \<open>\<open>hasSignal\<close>: the caller passed an \<open>abortSignal\<close>. Without one the listener is put
      on the signal of a fresh controller that nothing can abort\<close>
  "executeRequest rnd now rid hasSignal s =
     (let queueItem = \<lparr>requestId = rid, startTime = now, uid = nextUid s\<rparr>;
          s1 = s\<lparr>nextUid := nextUid s + 1\<rparr>;
          s2 = s1\<lparr>requestQueue := requestQueue s1 @ [queueItem]\<rparr>;
          s3 = s2\<lparr>timers := timers s2 @ [uid queueItem]\<rparr>;
          s4 = (if hasSignal then s3\<lparr>abortListeners := abortListeners s3 @ [uid queueItem]\<rparr>
                else s3)
      in processQueue rnd now s4)"

definition workSucceeded ::
  "(real \<Rightarrow> real) \<Rightarrow> real \<Rightarrow> RequestQueueItem \<Rightarrow> LocalModelConcurrencyManager
    \<Rightarrow> LocalModelConcurrencyManager" where
  \<comment> \<open>\<open>executeRequestAsync\<close> after its \<open>await\<close>, for an item whose work was started\<close>
  "workSucceeded rnd now item s =
     (if uid item \<in> set (started s) then itemResolve rnd now item s else s)"

definition workFailed ::
  "(real \<Rightarrow> real) \<Rightarrow> real \<Rightarrow> RequestQueueItem \<Rightarrow> string \<Rightarrow> LocalModelConcurrencyManager
    \<Rightarrow> LocalModelConcurrencyManager" where
  "workFailed rnd now item msg s =
     (if uid item \<in> set (started s) then itemReject rnd now item (Error msg) s else s)"

definition queueTimeoutFires ::
  "(real \<Rightarrow> real) \<Rightarrow> real \<Rightarrow> RequestQueueItem \<Rightarrow> LocalModelConcurrencyManager
    \<Rightarrow> LocalModelConcurrencyManager" where
  \<comment> \<open>the callback of \<open>setTimeout\<close>, which runs only when the timer was not cleared\<close>
  "queueTimeoutFires rnd now item s =
     (if uid item \<in> set (timers s)
      then
        let s1 = s\<lparr>timers := set_delete (uid item) (timers s)\<rparr>;
            s2 = removeFromQueue (requestId item) s1
        in itemReject rnd now item
             (QueueTimeoutError (requestId item) (queueTimeout (config s2))) s2
      else s)"

definition abortFires ::
  "(real \<Rightarrow> real) \<Rightarrow> real \<Rightarrow> RequestQueueItem \<Rightarrow> LocalModelConcurrencyManager
    \<Rightarrow> LocalModelConcurrencyManager" where
  \<comment> \<open>the \<open>abort\<close> listener\<close>
  "abortFires rnd now item s =
     (if uid item \<in> set (abortListeners s)
      then
        let s1 = s\<lparr>timers := set_delete (uid item) (timers s)\<rparr>;
            s2 = removeFromQueue (requestId item) s1;
            s3 = removeActiveRequest (requestId item) s2
        in itemReject rnd now item (Error ''Request was aborted'') s3
      else s)"

definition updateConfig ::
  "PartialConcurrencyConfig \<Rightarrow> LocalModelConcurrencyManager \<Rightarrow> LocalModelConcurrencyManager" where
  \<comment> \<open>\<open>{ ...this.config, ...newConfig }\<close>: a key of \<open>newConfig\<close> replaces the old value\<close>
  "updateConfig newConfig s =
     s\<lparr>config :=
         \<lparr>maxConcurrentRequests =
            (case new_maxConcurrentRequests newConfig of
               None \<Rightarrow> maxConcurrentRequests (config s) | Some v \<Rightarrow> v),
          queueTimeout =
            (case new_queueTimeout newConfig of None \<Rightarrow> queueTimeout (config s) | Some v \<Rightarrow> v),
          adaptiveThrottling =
            (case new_adaptiveThrottling newConfig of
               None \<Rightarrow> adaptiveThrottling (config s) | Some v \<Rightarrow> v)\<rparr>\<rparr>"

function clearQueue_forEach ::
  "(real \<Rightarrow> real) \<Rightarrow> real \<Rightarrow> nat \<Rightarrow> nat \<Rightarrow> LocalModelConcurrencyManager
    \<Rightarrow> LocalModelConcurrencyManager" where
  \<comment> \<open>\<open>this.requestQueue.forEach(...)\<close>: the indices below the length the array had at
      the call are visited in order, and an index the array no longer has is skipped.
      The callback calls the \<open>reject\<close> closure of the item, which ends in
      \<open>processQueue\<close> and so can take items off the array that is being walked\<close>
  "clearQueue_forEach rnd now k len s =
     (if k < len
      then
        (if k < length (requestQueue s)
         then clearQueue_forEach rnd now (k + 1) len
                (itemReject rnd now (requestQueue s ! k) (Error ''Request queue cleared'') s)
         else clearQueue_forEach rnd now (k + 1) len s)
      else s)"
  by pat_completeness auto
termination
  by (relation "measure (\<lambda>(rnd, now, k, len, s). len - k)") auto

declare clearQueue_forEach.simps [simp del]

definition clearQueue ::
  "(real \<Rightarrow> real) \<Rightarrow> real \<Rightarrow> LocalModelConcurrencyManager \<Rightarrow> LocalModelConcurrencyManager" where
  "clearQueue rnd now s =
     (clearQueue_forEach rnd now 0 (length (requestQueue s)) s)\<lparr>requestQueue := []\<rparr>"

section \<open>Facts about the matchers\<close>

lemma rx_star_accept: "rx_star C accept s"
  by (cases s) (simp_all add: accept_def)

lemma rx_atLeast_accept:
  "rx_atLeast n C accept s = (n \<le> length s \<and> (\<forall>d \<in> set (take n s). C d))"
proof (induction n arbitrary: s)
  case 0
  then show ?case by (simp add: rx_star_accept)
next
  case (Suc n)
  then show ?case by (cases s) auto
qed

lemma countMatches_single: "countMatches [c] s = length (filter (\<lambda>x. x = c) s)"
  by (induction s) auto

lemma countMatches_replicate:
  "p \<noteq> [] \<Longrightarrow> hd p \<noteq> c \<Longrightarrow> countMatches p (replicate n c) = 0"
  by (induction n) (auto simp: neq_Nil_conv)

lemma numFences_replicate: "c \<noteq> CHR 0x60 \<Longrightarrow> numFences (replicate n c) = 0"
  by (simp add: numFences_def fence_def countMatches_replicate)

lemma charRepeatPattern_replicate:
  "\<not> charRepeatExcluded c \<Longrightarrow> 16 \<le> n \<Longrightarrow> charRepeatPattern (replicate n c)"
  by (cases n) (auto simp: charRepeatPattern_def rx_atLeast_accept)

lemma hasObviousRepetition_content:
  "charRepeatPattern content \<Longrightarrow> hasObviousRepetition content s"
  by (simp add: hasObviousRepetition_def textsToCheck_def)

section \<open>Consecutive identical tool calls\<close>

lemma feed_loopDetected:
  "loopDetected s \<Longrightarrow> feed H J es s = (replicate (length es) True, s)"
  by (induction es) (simp_all add: addAndCheck_def Let_def)

lemma feed_append:
  "feed H J (es @ fs) s =
     (fst (feed H J es s) @ fst (feed H J fs (snd (feed H J es s))),
      snd (feed H J fs (snd (feed H J es s))))"
  by (induction es arbitrary: s) (simp_all add: Let_def)

lemma addAndCheck_loopDetected:
  "loopDetected (snd (addAndCheck H J e s)) = fst (addAndCheck H J e s)"
  by (cases e) (simp_all add: addAndCheck_def Let_def)

lemma feed_loopDetected_last:
  "es \<noteq> [] \<Longrightarrow> loopDetected (snd (feed H J es s)) = last (fst (feed H J es s))"
proof (induction es arbitrary: s)
  case Nil
  then show ?case by simp
next
  case (Cons e es)
  then show ?case
    by (cases es) (simp_all add: Let_def addAndCheck_loopDetected)
qed

lemma addAndCheck_same_key:
  assumes "\<not> loopDetected s" and "lastToolCallKey s = Some k"
    and "getToolCallKey H J tc = k"
  shows "fst (addAndCheck H J (ToolCallRequest tc) s) = (4 \<le> toolCallRepetitionCount s)
    \<and> lastToolCallKey (snd (addAndCheck H J (ToolCallRequest tc) s)) = Some k
    \<and> toolCallRepetitionCount (snd (addAndCheck H J (ToolCallRequest tc) s))
        = toolCallRepetitionCount s + 1"
  using assms
  by (auto simp: addAndCheck_def checkToolCallLoop_def resetContentTracking_def
      logLoopDetected_def Let_def)

lemma feed_same_key:
  assumes "\<not> loopDetected s" and "lastToolCallKey s = Some k"
    and "\<forall>tc \<in> set tcs. getToolCallKey H J tc = k"
  shows "fst (feed H J (map ToolCallRequest tcs) s) =
           replicate (min (length tcs) (4 - toolCallRepetitionCount s)) False
           @ replicate (length tcs - (4 - toolCallRepetitionCount s)) True"
  using assms
proof (induction tcs arbitrary: s)
  case Nil
  then show ?case by simp
next
  case (Cons tc tcs)
  let ?r = "addAndCheck H J (ToolCallRequest tc) s"
  have key: "getToolCallKey H J tc = k" using Cons.prems(3) by simp
  note step = addAndCheck_same_key [OF Cons.prems(1,2) key]
  show ?case
  proof (cases "4 \<le> toolCallRepetitionCount s")
    case True
    then have "loopDetected (snd ?r)"
      using step by (simp add: addAndCheck_loopDetected)
    then have "fst (feed H J (map ToolCallRequest tcs) (snd ?r)) = replicate (length tcs) True"
      by (simp add: feed_loopDetected)
    then show ?thesis using True step by (simp add: Let_def)
  next
    case False
    then have nd: "\<not> loopDetected (snd ?r)"
      using step by (simp add: addAndCheck_loopDetected)
    have "fst (feed H J (map ToolCallRequest tcs) (snd ?r)) =
           replicate (min (length tcs) (4 - toolCallRepetitionCount (snd ?r))) False
           @ replicate (length tcs - (4 - toolCallRepetitionCount (snd ?r))) True"
      using Cons.IH [OF nd] step Cons.prems(3) by simp
    moreover have "4 - toolCallRepetitionCount s = Suc (4 - toolCallRepetitionCount (snd ?r))"
      using False step by simp
    ultimately show ?thesis using False step by (simp add: Let_def)
  qed
qed

lemma addAndCheck_first_call:
  "fst (addAndCheck H J (ToolCallRequest tc) (reset pid s)) = False
   \<and> \<not> loopDetected (snd (addAndCheck H J (ToolCallRequest tc) (reset pid s)))
   \<and> lastToolCallKey (snd (addAndCheck H J (ToolCallRequest tc) (reset pid s)))
       = Some (getToolCallKey H J tc)
   \<and> toolCallRepetitionCount (snd (addAndCheck H J (ToolCallRequest tc) (reset pid s))) = 1"
  by (simp add: addAndCheck_def checkToolCallLoop_def resetContentTracking_def reset_def
      resetToolCallCount_def resetLlmCheckTracking_def logLoopDetected_def Let_def)

lemma feed_identical_from_reset:
  assumes "\<forall>tc \<in> set tcs. getToolCallKey H J tc = k"
  shows "fst (feed H J (map ToolCallRequest tcs) (reset pid s)) =
           replicate (min (length tcs) 4) False @ replicate (length tcs - 4) True"
proof (cases tcs)
  case Nil
  then show ?thesis by simp
next
  case (Cons tc rest)
  let ?r = "addAndCheck H J (ToolCallRequest tc) (reset pid s)"
  note first = addAndCheck_first_call [of H J tc pid s]
  have k: "getToolCallKey H J tc = k" using assms Cons by simp
  have "fst (feed H J (map ToolCallRequest rest) (snd ?r)) =
          replicate (min (length rest) (4 - 1)) False @ replicate (length rest - (4 - 1)) True"
    using feed_same_key [of "snd ?r" k rest H J] first k assms Cons by simp
  then show ?thesis using Cons first
    by (simp add: Let_def flip: replicate_Suc)
qed

lemma reset_clears_loopDetected: "\<not> loopDetected (reset pid s)"
  by (simp add: reset_def resetToolCallCount_def resetContentTracking_def
      resetLlmCheckTracking_def Let_def)

text \<open>
  Claim C1. After \<open>reset\<close>, tool calls with one and the same fingerprint, with nothing
  between them, are answered false four times and true from the fifth on. Once five
  of them were fed, every later event of any kind is answered true, and the flag
  \<open>loopDetected\<close> stays set until \<open>reset\<close> clears it.
\<close>

theorem C1_identical_tool_calls:
  assumes "\<forall>tc \<in> set tcs. getToolCallKey H J tc = k"
  shows "fst (feed H J (map ToolCallRequest tcs) (reset pid s)) =
           replicate (min (length tcs) 4) False @ replicate (length tcs - 4) True
       \<and> (5 \<le> length tcs \<longrightarrow>
            fst (feed H J (map ToolCallRequest tcs @ es) (reset pid s)) =
              replicate 4 False @ replicate (length tcs - 4 + length es) True
            \<and> loopDetected (snd (feed H J (map ToolCallRequest tcs @ es) (reset pid s)))
            \<and> \<not> loopDetected
                  (reset pid' (snd (feed H J (map ToolCallRequest tcs @ es) (reset pid s)))))"
proof -
  let ?calls = "map ToolCallRequest tcs"
  note calls = feed_identical_from_reset [OF assms, of pid s]
  have later: "fst (feed H J (?calls @ es) (reset pid s)) =
                 replicate 4 False @ replicate (length tcs - 4 + length es) True
               \<and> loopDetected (snd (feed H J (?calls @ es) (reset pid s)))"
    if five: "5 \<le> length tcs"
  proof -
    have ne: "?calls \<noteq> []" using five by auto
    have "last (fst (feed H J ?calls (reset pid s)))"
      using five calls by simp
    then have ld: "loopDetected (snd (feed H J ?calls (reset pid s)))"
      using feed_loopDetected_last [OF ne, of H J "reset pid s"] by simp
    have "replicate (length tcs - 4) True @ replicate (length es) True
            = replicate (length tcs - 4 + length es) True"
      by (simp add: replicate_add)
    then show ?thesis
      using five calls ld feed_loopDetected [OF ld, of H J es]
      by (simp add: feed_append [of H J ?calls es])
  qed
  show ?thesis using calls later reset_clears_loopDetected by blast
qed

text \<open>
  Witness for C1: six calls of the tool \<open>read\<close> with the same arguments, followed by a
  text event and an event of another kind.
\<close>

theorem C1_identical_tool_calls_witness:
  "fst (feed plainHash plainArgs
         (map ToolCallRequest (replicate 6 \<lparr>name = ''read'', args = ''{}''\<rparr>)
          @ [Content ''x'', OtherEvent])
         (reset ''p'' newService))
     = [False, False, False, False, True, True, True, True]"
proof -
  let ?tcs = "replicate 6 \<lparr>name = ''read'', args = ''{}''\<rparr>"
  let ?es = "[Content ''x'', OtherEvent] :: string ServerGeminiStreamEvent list"
  have same: "\<forall>tc \<in> set ?tcs. getToolCallKey plainHash plainArgs tc = ''read:{}''"
    by (simp add: getToolCallKey_def plainHash_def plainArgs_def)
  have five: "5 \<le> length ?tcs" by simp
  have "fst (feed plainHash plainArgs (map ToolCallRequest ?tcs @ ?es) (reset ''p'' newService))
        = replicate 4 False @ replicate (length ?tcs - 4 + length ?es) True"
    by (rule C1_identical_tool_calls
      [OF same, where es = ?es and pid = "''p''" and s = newService,
       THEN conjunct2, THEN mp, OF five, THEN conjunct1])
  also have "\<dots> = [False, False, False, False, True, True, True, True]"
    by (simp add: numeral_eq_Suc)
  finally show ?thesis .
qed

section \<open>The cap on the content history\<close>

text \<open>
  Claim C4 says that the history is at most 1000 characters long after every call of
  \<open>addAndCheck\<close>, the calls that return true early included. \<open>checkContentLoop\<close> appends
  the text and returns from \<open>hasObviousRepetition\<close> before \<open>truncateAndUpdate\<close> runs:
  after \<open>reset\<close>, one text event of 1001 letters \<open>a\<close> is answered true and leaves a
  history of 1001 characters.
\<close>

theorem C4_early_return_skips_truncation:
  "fst (addAndCheck H J (Content (replicate 1001 (CHR ''a''))) (reset pid newService))
   \<and> length (streamContentHistory
        (snd (addAndCheck H J (Content (replicate 1001 (CHR ''a''))) (reset pid newService))))
       = 1001"
proof -
  let ?c = "replicate 1001 (CHR ''a'')"
  have nf: "numFences ?c = 0" by (simp add: numFences_replicate)
  have rep: "hasObviousRepetition ?c s" for s
    by (rule hasObviousRepetition_content, rule charRepeatPattern_replicate)
       (simp_all add: charRepeatExcluded_def isSpace_def)
  show ?thesis
    by (simp add: addAndCheck_def checkContentLoop_def nf rep reset_def newService_def
        resetContentTracking_def resetToolCallCount_def resetLlmCheckTracking_def Let_def)
qed

section \<open>Text inside a fenced code block\<close>

lemma checkContentLoop_inside:
  "inCodeBlock s \<Longrightarrow>
     fst (checkContentLoop H content s) = False
     \<and> inCodeBlock (snd (checkContentLoop H content s)) = even (numFences content)"
  by (auto simp: checkContentLoop_def resetContentTracking_def Let_def even_iff_mod_2_eq_zero)

lemma checkContentLoop_opening:
  "\<not> inCodeBlock s \<Longrightarrow> odd (numFences content) \<Longrightarrow>
     fst (checkContentLoop H content s) = False
     \<and> inCodeBlock (snd (checkContentLoop H content s))"
  by (auto simp: checkContentLoop_def resetContentTracking_def Let_def odd_iff_mod_2_eq_one)

lemma addAndCheck_Content:
  "\<not> loopDetected s \<Longrightarrow>
     fst (addAndCheck H J (Content c) s) = fst (checkContentLoop H c s)
     \<and> inCodeBlock (snd (addAndCheck H J (Content c) s)) = inCodeBlock (snd (checkContentLoop H c s))
     \<and> loopDetected (snd (addAndCheck H J (Content c) s)) = fst (checkContentLoop H c s)"
  by (simp add: addAndCheck_def Let_def)

lemma feed_inside:
  assumes "\<not> loopDetected s" and "inCodeBlock s" and "\<forall>c \<in> set body. even (numFences c)"
  shows "fst (feed H J (map Content (body @ [closer])) s) = replicate (length body + 1) False"
  using assms
proof (induction body arbitrary: s)
  case Nil
  then show ?case
    using addAndCheck_Content [of s H J closer] checkContentLoop_inside [of s H closer]
    by (simp add: Let_def)
next
  case (Cons c body)
  let ?r = "addAndCheck H J (Content c) s"
  have "fst ?r = False \<and> \<not> loopDetected (snd ?r) \<and> inCodeBlock (snd ?r)"
    using addAndCheck_Content [of s H J c] checkContentLoop_inside [of s H c] Cons.prems
    by simp
  then show ?case using Cons.IH [of "snd ?r"] Cons.prems(3) by (simp add: Let_def)
qed

lemma numFences_block: "numFences (fencedBlock ''aaaaaaaaaaaaaaaaaaaa'') = 2"
  by (simp add: fencedBlock_def fence_def numFences_def)

lemma charRepeatPattern_block: "charRepeatPattern (fencedBlock ''aaaaaaaaaaaaaaaaaaaa'')"
  by (simp add: fencedBlock_def fence_def charRepeatPattern_def rx_atLeast_accept
      charRepeatExcluded_def isSpace_def)

text \<open>
  Claim C6, as amended. The service is outside a code block and no loop was detected.
  A text event with an odd number of fences opens the block; every event after it with
  an even number of fences (none, as a rule), and the event after those, which closes
  the block, are answered false, whatever their text repeats.
\<close>

theorem C6_code_block_across_events:
  assumes "\<not> loopDetected s" and "\<not> inCodeBlock s" and "odd (numFences opener)"
    and "\<forall>c \<in> set body. even (numFences c)"
  shows "fst (feed H J (map Content (opener # body @ [closer])) s)
           = replicate (length body + 2) False"
proof -
  let ?r = "addAndCheck H J (Content opener) s"
  have "fst ?r = False \<and> \<not> loopDetected (snd ?r) \<and> inCodeBlock (snd ?r)"
    using addAndCheck_Content [of s H J opener] checkContentLoop_opening [of s opener H] assms
    by simp
  then show ?thesis
    using feed_inside [of "snd ?r" body H J closer] assms(4) by (simp add: Let_def)
qed

text \<open>
  Witness for C6: the fence, thirty letters \<open>a\<close> three times, the fence.
\<close>

theorem C6_code_block_across_events_witness:
  "fst (feed plainHash plainArgs
         (map Content (fence # replicate 3 (replicate 30 (CHR ''a'')) @ [fence]))
         (reset [] newService))
     = [False, False, False, False, False]"
proof -
  let ?body = "replicate 3 (replicate 30 (CHR ''a''))"
  have a: "\<not> loopDetected (reset [] newService)" by (rule reset_clears_loopDetected)
  have b: "\<not> inCodeBlock (reset [] newService)"
    by (simp add: reset_def newService_def resetToolCallCount_def resetContentTracking_def
        resetLlmCheckTracking_def Let_def)
  have c: "odd (numFences fence)" by (simp add: numFences_def fence_def)
  have d: "\<forall>c \<in> set ?body. even (numFences c)" by (simp add: numFences_replicate)
  have "fst (feed plainHash plainArgs (map Content (fence # ?body @ [fence]))
          (reset [] newService)) = replicate (length ?body + 2) False"
    by (rule C6_code_block_across_events [OF a b c d])
  also have "\<dots> = [False, False, False, False, False]"
    by (simp add: numeral_eq_Suc)
  finally show ?thesis .
qed

text \<open>
  Counterexample to C6 as stated: a fenced block that arrives in one text event. The
  event has two fences, so the service is outside a code block before and after it and
  the text is analysed; the line of twenty letters \<open>a\<close> inside the block makes
  \<open>checkContentLoop\<close> return true.
\<close>

theorem C6_counterexample:
  "fst (checkContentLoop plainHash (fencedBlock ''aaaaaaaaaaaaaaaaaaaa'') (reset [] newService))"
  by (simp add: checkContentLoop_def numFences_block
      hasObviousRepetition_content [OF charRepeatPattern_block] reset_def
      newService_def resetContentTracking_def resetToolCallCount_def
      resetLlmCheckTracking_def Let_def)

section \<open>The tests of \<open>hasObviousRepetition\<close>\<close>

lemma count_two_classes:
  "c \<noteq> d \<Longrightarrow> length (filter (\<lambda>x. x = c) s) + length (filter (\<lambda>x. x = d) s) \<le> length s"
  by (induction s) auto

lemma quoteCount_starCount_le: "quoteCount t + starCount t \<le> length t"
  unfolding quoteCount_def starCount_def countMatches_single
  by (rule count_two_classes) simp

text \<open>
  Claim C10. In no text do the double quotes and the asterisks both number more than
  0.6 times the length: no character is both, so the two counts add up to the length at
  most. The third test of \<open>hasObviousRepetition\<close> therefore never holds, and the
  function returns what the first two tests give.
\<close>

theorem C10_dense_branch_unreachable:
  "\<not> (real (quoteCount t) > real (length t) * 0.6 \<and> real (starCount t) > real (length t) * 0.6)
   \<and> \<not> denseQuotesAndStars t
   \<and> hasObviousRepetition content s =
       list_ex (\<lambda>t. charRepeatPattern t \<or> brokenQuotePattern t) (textsToCheck content s)"
proof -
  have le: "real (quoteCount t) + real (starCount t) \<le> real (length t)" for t
    using quoteCount_starCount_le [of t] by linarith
  have a: "\<not> (real (quoteCount t) > real (length t) * 0.6
              \<and> real (starCount t) > real (length t) * 0.6)" for t
    using le [of t] by auto
  have b: "\<not> denseQuotesAndStars t" for t
    using a [of t] by (simp add: denseQuotesAndStars_def)
  show ?thesis using a b by (simp add: hasObviousRepetition_def)
qed

section \<open>The classifier of local models\<close>

text \<open>
  Claim C9. With \<open>OPENAI_BASE_URL\<close> not set, \<open>isLocalModel\<close> is true of the loopback
  address with the model \<open>llama3.2:8b\<close>, false of \<open>api.openai.com\<close> with \<open>gpt-4\<close>, and
  true of \<open>api.openai.com\<close> with \<open>llama-7b\<close>: the name of the model is enough.
\<close>

theorem C9_isLocalModel_scenarios:
  "isLocalModel None (Some ''http://127.0.0.1:11434'') (Some ''llama3.2:8b'')
   \<and> \<not> isLocalModel None (Some ''https://api.openai.com'') (Some ''gpt-4'')
   \<and> isLocalModel None (Some ''https://api.openai.com'') (Some ''llama-7b'')"
  by (simp add: isLocalModel_def truthy_def localPatterns_def localModelPatterns_def
      toLowerCase_def)

section \<open>The effective concurrency limit\<close>

lemma double_eval:
  assumes "2 powi e \<le> \<bar>x\<bar>" and "\<bar>x\<bar> < 2 powi (e + 1)" and "- 1022 \<le> e"
  shows "double x = of_int (roundTiesToEven (x / 2 powi (e - 52))) * 2 powi (e - 52)"
proof -
  have pos: "0 < \<bar>x\<bar>" using assms(1) by (smt (verit) zero_less_power_int)
  have a: "(2::real) powr real_of_int e = 2 powi e"
    by (simp add: powr_real_of_int')
  have b: "(2::real) powr (real_of_int e + 1) = 2 powi (e + 1)"
    using powr_real_of_int' [of "2::real" "e + 1"] by simp
  have "\<lfloor>log 2 \<bar>x\<bar>\<rfloor> = e"
    using assms(1,2) pos floor_log_eq_powr_iff [of "\<bar>x\<bar>" 2 e] a b by simp
  then show ?thesis using pos assms(3) by (simp add: double_def Let_def max_def)
qed

lemma double_0_7: "double 0.7 = 6305039478318694 / 2 ^ 53"
  using double_eval [of "-1" "0.7"]
  by (simp add: roundTiesToEven_def Let_def power_int_minus)

lemma double_0_2: "double 0.2 = 3602879701896397 / 2 ^ 54"
  using double_eval [of "-3" "0.2"]
  by (simp add: roundTiesToEven_def Let_def power_int_minus)

lemma double_90_times_0_7:
  "double (90 * (6305039478318694 / 2 ^ 53)) = 8866461766385663 / 2 ^ 47"
  using double_eval [of 5 "90 * (6305039478318694 / 2 ^ 53)"]
  by (simp add: roundTiesToEven_def Let_def power_int_minus)

lemma limit_when_slow:
  assumes "adaptiveThrottling cfg" and "\<not> errorRate pm > rnd 0.2"
    and "averageResponseTime pm > 30000"
  shows "getEffectiveConcurrencyLimit rnd cfg pm
           = of_int (max 1 \<lfloor>rnd (maxConcurrentRequests cfg * rnd 0.7)\<rfloor>)"
  using assms by (simp add: getEffectiveConcurrencyLimit_def)

text \<open>
  Claim C7 gives the limit for slow responses as \<open>max(1, floor(maxConcurrentRequests * 0.7))\<close>.
  The code takes the floor of the product of two doubles. The double next to 0.7 is below
  0.7, and at \<open>maxConcurrentRequests = 90\<close> the product rounds to the double below 63: with
  adaptive throttling, no errors and an average response time of 40000 the code returns
  62, where seven tenths of 90 are 63.
\<close>

theorem C7_limit_at_90:
  "getEffectiveConcurrencyLimit double
     \<lparr>maxConcurrentRequests = 90, queueTimeout = 120000, adaptiveThrottling = True\<rparr>
     \<lparr>averageResponseTime = 40000, errorRate = 0, queueWaitTimes = []\<rparr> = 62
   \<and> real_of_int (max 1 \<lfloor>(90::real) * 0.7\<rfloor>) = 63"
proof -
  let ?cfg = "\<lparr>maxConcurrentRequests = 90, queueTimeout = 120000, adaptiveThrottling = True\<rparr>"
  let ?pm = "\<lparr>averageResponseTime = 40000, errorRate = 0, queueWaitTimes = []\<rparr>"
  have a: "adaptiveThrottling ?cfg" by simp
  have "(0::real) \<le> 3602879701896397 / 2 ^ 54" by simp
  then have b: "\<not> errorRate ?pm > double 0.2"
    by (simp only: double_0_2 PerformanceMetrics.select_convs not_less)
  have c: "averageResponseTime ?pm > 30000" by simp
  have "double (maxConcurrentRequests ?cfg * double 0.7) = 8866461766385663 / 2 ^ 47"
    by (simp only: ConcurrencyConfig.select_convs double_0_7 double_90_times_0_7)
  moreover have "\<lfloor>(8866461766385663::real) / 2 ^ 47\<rfloor> = 62" by (simp add: floor_eq_iff)
  ultimately have "getEffectiveConcurrencyLimit double ?cfg ?pm = 62"
    by (simp only: limit_when_slow [where cfg = ?cfg and pm = ?pm and rnd = double, OF a b c])
  moreover have "real_of_int (max 1 \<lfloor>(90::real) * 0.7\<rfloor>) = 63" by simp
  ultimately show ?thesis by simp
qed

section \<open>Truncation of the history\<close>

lemma substring_drop:
  assumes "0 \<le> t" and "t \<le> int (length s)" and "t \<le> i" and "0 \<le> n"
  shows "substring (drop (nat t) s) (i - t) (i - t + n) = substring s i (i + n)"
proof -
  let ?L = "int (length s)"
  have l: "int (length (drop (nat t) s)) = ?L - t" using assms by simp
  have a: "min (max (i - t) 0) (?L - t) = min i ?L - t" using assms by linarith
  have b: "min (max (i - t + n) 0) (?L - t) = min (i + n) ?L - t" using assms by linarith
  have a0: "min (max i 0) ?L = min i ?L" using assms by linarith
  have b0: "min (max (i + n) 0) ?L = min (i + n) ?L" using assms by linarith
  have ord: "min i ?L \<le> min (i + n) ?L" using assms by linarith
  have d: "nat (min i ?L - t) + nat t = nat (min i ?L)" using assms by linarith
  show ?thesis
    unfolding substring_def Let_def l a b a0 b0
    using ord d by (simp add: min_absorb1 max_absorb2)
qed

lemma slice_drop: "0 \<le> k \<Longrightarrow> k \<le> int (length s) \<Longrightarrow> slice s k = drop (nat k) s"
  by (simp add: slice_def Let_def)

lemma adjusted_indices:
  "filter (\<lambda>index. index \<ge> 0) (map (\<lambda>index. index - (t::int)) l)
     = map (\<lambda>i. i - t) (filter (\<lambda>i. t \<le> i) l)"
  by (induction l) auto

lemma filter_empty_iff_all: "(filter (\<lambda>i. (t::int) \<le> i) l = []) = (\<forall>i \<in> set l. i < t)"
  by (induction l) auto

text \<open>
  Claim C5. When the history is longer than the cap, \<open>truncateAndUpdate\<close> drops the
  first \<open>t = length - 1000\<close> characters and rewrites every entry of \<open>contentStats\<close>:
  the offsets below \<open>t\<close> go, the others are lowered by \<open>t\<close>, and an entry that keeps no
  offset is removed. Every offset \<open>j\<close> that is left comes from the offset \<open>j + t\<close> of the
  same entry, and the twenty characters at \<open>j\<close> in the new history are the twenty
  characters that were at \<open>j + t\<close> in the old one.
\<close>

theorem C5_truncation_keeps_offsets:
  assumes "int (length (streamContentHistory s)) > MAX_HISTORY_LENGTH"
  shows "let t = int (length (streamContentHistory s)) - MAX_HISTORY_LENGTH;
             s' = truncateAndUpdate s
         in streamContentHistory s' = drop (nat t) (streamContentHistory s)
          \<and> int (length (streamContentHistory s')) = MAX_HISTORY_LENGTH
          \<and> contentStats s' h =
              (case contentStats s h of
                 None \<Rightarrow> None
               | Some l \<Rightarrow> if (\<forall>i \<in> set l. i < t) then None
                           else Some (map (\<lambda>i. i - t) (filter (\<lambda>i. t \<le> i) l)))
          \<and> (\<forall>l'. contentStats s' h = Some l' \<longrightarrow>
                l' \<noteq> [] \<and>
                (\<forall>j \<in> set l'. 0 \<le> j \<and>
                   (\<exists>l. contentStats s h = Some l \<and> j + t \<in> set l) \<and>
                   substring (streamContentHistory s') j (j + CONTENT_CHUNK_SIZE)
                     = substring (streamContentHistory s) (j + t) (j + t + CONTENT_CHUNK_SIZE)))"
proof -
  define t where "t = int (length (streamContentHistory s)) - MAX_HISTORY_LENGTH"
  define s' where "s' = truncateAndUpdate s"
  have t0: "0 < t" and tl: "t \<le> int (length (streamContentHistory s))"
    using assms by (simp_all add: t_def)
  have hist: "streamContentHistory s' = drop (nat t) (streamContentHistory s)"
    using assms t0 tl
    by (simp add: s'_def truncateAndUpdate_def Let_def slice_drop flip: t_def)
  have len: "int (length (streamContentHistory s')) = MAX_HISTORY_LENGTH"
    using assms unfolding hist by (simp add: t_def)
  have stats: "contentStats s' h =
      (case contentStats s h of
         None \<Rightarrow> None
       | Some l \<Rightarrow> if (\<forall>i \<in> set l. i < t) then None
                   else Some (map (\<lambda>i. i - t) (filter (\<lambda>i. t \<le> i) l)))" for h
    using assms
    by (simp add: s'_def truncateAndUpdate_def Let_def adjusted_indices filter_empty_iff_all
        flip: t_def split: option.split)
  have sub: "substring (streamContentHistory s') j (j + CONTENT_CHUNK_SIZE)
               = substring (streamContentHistory s) (j + t) (j + t + CONTENT_CHUNK_SIZE)"
    if "0 \<le> j" for j
    using substring_drop [of t "streamContentHistory s" "j + t" CONTENT_CHUNK_SIZE] t0 tl that
    unfolding hist by simp
  have surv: "l' \<noteq> [] \<and>
        (\<forall>j \<in> set l'. 0 \<le> j \<and>
           (\<exists>l. contentStats s h = Some l \<and> j + t \<in> set l) \<and>
           substring (streamContentHistory s') j (j + CONTENT_CHUNK_SIZE)
             = substring (streamContentHistory s) (j + t) (j + t + CONTENT_CHUNK_SIZE))"
    if "contentStats s' h = Some l'" for l'
  proof -
    from that stats [of h] obtain l where l: "contentStats s h = Some l"
      and ne: "\<not> (\<forall>i \<in> set l. i < t)"
      and l': "l' = map (\<lambda>i. i - t) (filter (\<lambda>i. t \<le> i) l)"
      by (auto split: option.splits if_splits)
    have "l' \<noteq> []" using ne l' by (simp add: filter_empty_iff_all)
    moreover have "0 \<le> j \<and> (\<exists>l. contentStats s h = Some l \<and> j + t \<in> set l)" if "j \<in> set l'" for j
      using that l l' by auto
    ultimately show ?thesis using sub by blast
  qed
  have "streamContentHistory s' = drop (nat t) (streamContentHistory s)
          \<and> int (length (streamContentHistory s')) = MAX_HISTORY_LENGTH
          \<and> contentStats s' h =
              (case contentStats s h of
                 None \<Rightarrow> None
               | Some l \<Rightarrow> if (\<forall>i \<in> set l. i < t) then None
                           else Some (map (\<lambda>i. i - t) (filter (\<lambda>i. t \<le> i) l)))
          \<and> (\<forall>l'. contentStats s' h = Some l' \<longrightarrow>
                l' \<noteq> [] \<and>
                (\<forall>j \<in> set l'. 0 \<le> j \<and>
                   (\<exists>l. contentStats s h = Some l \<and> j + t \<in> set l) \<and>
                   substring (streamContentHistory s') j (j + CONTENT_CHUNK_SIZE)
                     = substring (streamContentHistory s) (j + t) (j + t + CONTENT_CHUNK_SIZE)))"
    using hist len stats [of h] surv by blast
  then show ?thesis
    unfolding Let_def t_def s'_def .
qed


lemma length_concat_replicate: "length (concat (replicate n xs)) = n * length xs"
  by (induction n) simp_all

text \<open>
  Witness for C5: a history of 1020 characters and an entry with the offsets 0, 20
  and 40. The first twenty characters go, the offset 0 with them.
\<close>

theorem C5_truncation_keeps_offsets_witness:
  "contentStats
     (truncateAndUpdate
       (newService\<lparr>streamContentHistory := concat (replicate 51 ''abcdefghijklmnopqrst''),
                    contentStats := [''k'' \<mapsto> [0, 20, 40]],
                    lastContentIndex := 1001\<rparr>)) ''k'' = Some [0, 20]
   \<and> length (streamContentHistory
       (truncateAndUpdate
         (newService\<lparr>streamContentHistory := concat (replicate 51 ''abcdefghijklmnopqrst''),
                      contentStats := [''k'' \<mapsto> [0, 20, 40]],
                      lastContentIndex := 1001\<rparr>))) = 1000"
proof -
  let ?s = "newService\<lparr>streamContentHistory := concat (replicate 51 ''abcdefghijklmnopqrst''),
                       contentStats := [''k'' \<mapsto> [0, 20, 40]],
                       lastContentIndex := 1001\<rparr>"
  have w: "length ''abcdefghijklmnopqrst'' = 20" by simp
  have "length (concat (replicate 51 ''abcdefghijklmnopqrst'')) = 51 * 20"
    by (simp only: length_concat_replicate w)
  then have len': "length (concat (replicate 51 ''abcdefghijklmnopqrst'')) = 1020"
    by simp
  then have len: "int (length (streamContentHistory ?s)) = 1020"
    by simp
  then have over: "int (length (streamContentHistory ?s)) > MAX_HISTORY_LENGTH" by simp
  have st: "contentStats ?s ''k'' = Some [0, 20, 40]" by simp
  show ?thesis
    using C5_truncation_keeps_offsets [OF over, of "''k''"]
    unfolding Let_def len st by (simp add: len')
qed

section \<open>Chanting of one text\<close>































































section \<open>Clearing the queue\<close>

definition threeRequests :: LocalModelConcurrencyManager where
  \<comment> \<open>a manager for one request at a time that was given the requests \<open>a\<close>, \<open>b\<close> and \<open>c\<close>:
      \<open>a\<close> runs, \<open>b\<close> and \<open>c\<close> wait in the queue\<close>
  "threeRequests =
     executeRequest double 0 ''c'' False
       (executeRequest double 0 ''b'' False
         (executeRequest double 0 ''a'' False
           (newManager \<lparr>maxConcurrentRequests = 1, queueTimeout = 120000,
                         adaptiveThrottling = False\<rparr>)))"

lemma threeRequests_state:
  "activeRequests threeRequests = [''a'']
   \<and> requestQueue threeRequests
       = [\<lparr>requestId = ''b'', startTime = 0, uid = 1\<rparr>, \<lparr>requestId = ''c'', startTime = 0, uid = 2\<rparr>]
   \<and> started threeRequests = [0]
   \<and> promises threeRequests = (\<lambda>u. Pending)
   \<and> config threeRequests = \<lparr>maxConcurrentRequests = 1, queueTimeout = 120000,
                         adaptiveThrottling = False\<rparr>"
  by (simp add: threeRequests_def executeRequest_def newManager_def processQueue.simps
      effectiveLimit_def getEffectiveConcurrencyLimit_def set_add_def set_delete_def Let_def)

text \<open>
  Claim C8 says that \<open>clearQueue\<close> rejects every queued request, admits none of them and
  leaves the queue empty. \<open>clearQueue\<close> calls the \<open>reject\<close> closure of each item, and that
  closure ends in \<open>processQueue\<close> while the item is still in the queue. In a state with
  a free slot and a queue that is not empty, as \<open>updateConfig\<close> leaves it when it raises
  \<open>maxConcurrentRequests\<close> from 1 to 3, the first rejection admits \<open>b\<close>, which was just
  rejected, and \<open>c\<close>: the work of both is started, and the promise of \<open>c\<close> is never
  rejected, since \<open>forEach\<close> finds the array empty when it comes to the second index.
\<close>

theorem C8_clearQueue_admits_queued_requests:
  "(let s = clearQueue double 0
              (updateConfig \<lparr>new_maxConcurrentRequests = Some 3, new_queueTimeout = None,
                              new_adaptiveThrottling = None\<rparr> threeRequests)
    in promises s 1 = Rejected (Error ''Request queue cleared'')
       \<and> promises s 2 = Pending
       \<and> started s = [0, 1, 2]
       \<and> activeRequests s = [''a'', ''b'', ''c'']
       \<and> requestQueue s = [])"
  using threeRequests_state
  by (simp add: clearQueue_def clearQueue_forEach.simps updateConfig_def itemReject_def
      removeActiveRequest_def recordError_def settle_def processQueue.simps
      effectiveLimit_def getEffectiveConcurrencyLimit_def set_add_def set_delete_def Let_def)

section \<open>Active requests and the effective limit\<close>

text \<open>
  The body of the loop of \<open>processQueue\<close>: the first item leaves the queue, its waiting
  time is recorded, its id joins \<open>activeRequests\<close>, its timer is cleared and its work
  is started.
\<close>

definition admitFirst ::
  "real \<Rightarrow> LocalModelConcurrencyManager \<Rightarrow> LocalModelConcurrencyManager" where
  "admitFirst now s =
     s\<lparr>requestQueue := tl (requestQueue s),
       performanceMetrics := (performanceMetrics s)
         \<lparr>queueWaitTimes :=
            (if length (queueWaitTimes (performanceMetrics s) @ [now - startTime (hd (requestQueue s))]) > 100
             then tl (queueWaitTimes (performanceMetrics s) @ [now - startTime (hd (requestQueue s))])
             else queueWaitTimes (performanceMetrics s) @ [now - startTime (hd (requestQueue s))])\<rparr>,
       activeRequests := set_add (requestId (hd (requestQueue s))) (activeRequests s),
       timers := set_delete (uid (hd (requestQueue s))) (timers s),
       started := started s @ [uid (hd (requestQueue s))]\<rparr>"

text \<open>
  Four requests made at time 0 of a manager with \<open>maxConcurrentRequests = 4\<close> and
  adaptive throttling, and the state after the work of the first has succeeded at time
  400000.
\<close>

definition fourRequests :: LocalModelConcurrencyManager where
  "fourRequests =
     executeRequest double 0 ''d'' False
       (executeRequest double 0 ''c'' False
         (executeRequest double 0 ''b'' False
           (executeRequest double 0 ''a'' False
             (newManager \<lparr>maxConcurrentRequests = 4, queueTimeout = 120000,
                           adaptiveThrottling = True\<rparr>))))"

definition afterSlowResponse :: LocalModelConcurrencyManager where
  "afterSlowResponse =
     workSucceeded double 400000 \<lparr>requestId = ''a'', startTime = 0, uid = 0\<rparr> fourRequests"

lemma set_add_length: "length (set_add x xs) \<le> length xs + 1"
  by (simp add: set_add_def)

lemma set_delete_length: "length (set_delete x xs) \<le> length xs"
  by (simp add: set_delete_def)

lemma processQueue_step:
  "real (length (activeRequests s)) < effectiveLimit rnd s \<and> length (requestQueue s) > 0
   \<Longrightarrow> processQueue rnd now s = processQueue rnd now (admitFirst now s)"
  by (subst processQueue.simps) (simp add: Let_def admitFirst_def)

lemma processQueue_stop:
  "\<not> (real (length (activeRequests s)) < effectiveLimit rnd s \<and> length (requestQueue s) > 0)
   \<Longrightarrow> processQueue rnd now s = s"
  by (subst processQueue.simps) (simp only: if_False)

lemma processQueue_induct_admit:
  assumes "\<And>s. \<not> (real (length (activeRequests s)) < effectiveLimit rnd s \<and> length (requestQueue s) > 0)
              \<Longrightarrow> P s"
    and "\<And>s. real (length (activeRequests s)) < effectiveLimit rnd s \<and> length (requestQueue s) > 0
              \<Longrightarrow> P (admitFirst now s) \<Longrightarrow> P s"
  shows "P s"
proof (induction "length (requestQueue s)" arbitrary: s rule: less_induct)
  case less
  show ?case
  proof (cases "real (length (activeRequests s)) < effectiveLimit rnd s \<and> length (requestQueue s) > 0")
    case True
    then have "length (requestQueue (admitFirst now s)) < length (requestQueue s)"
      by (simp add: admitFirst_def)
    then have "P (admitFirst now s)" by (rule less)
    then show ?thesis using assms(2) True by blast
  next
    case False
    then show ?thesis by (rule assms(1))
  qed
qed

lemma effectiveLimit_cong:
  "config s' = config s \<Longrightarrow> errorRate (performanceMetrics s') = errorRate (performanceMetrics s)
   \<Longrightarrow> averageResponseTime (performanceMetrics s') = averageResponseTime (performanceMetrics s)
   \<Longrightarrow> effectiveLimit rnd s' = effectiveLimit rnd s"
  unfolding effectiveLimit_def getEffectiveConcurrencyLimit_def Let_def by simp

lemma admitFirst_limit: "effectiveLimit rnd (admitFirst now s) = effectiveLimit rnd s"
  by (rule effectiveLimit_cong) (simp_all add: admitFirst_def)

lemma processQueue_limit: "effectiveLimit rnd (processQueue rnd now s) = effectiveLimit rnd s"
proof (induction s rule: processQueue_induct_admit [where rnd = rnd and now = now])
  case (1 s)
  show ?case by (simp only: processQueue_stop [OF 1])
next
  case (2 s)
  show ?case using 2(2) by (simp only: processQueue_step [OF 2(1)] admitFirst_limit)
qed

lemma processQueue_bound:
  "real (length (activeRequests (processQueue rnd now s)))
     \<le> max (real (length (activeRequests s))) (of_int \<lceil>effectiveLimit rnd s\<rceil>)"
proof (induction s rule: processQueue_induct_admit [where rnd = rnd and now = now])
  case (1 s)
  show ?case by (simp add: processQueue_stop [OF 1])
next
  case (2 s)
  have "int (length (activeRequests s)) < \<lceil>effectiveLimit rnd s\<rceil>"
    using 2(1) by (simp add: less_ceiling_iff)
  moreover have "length (activeRequests (admitFirst now s)) \<le> length (activeRequests s) + 1"
    using set_add_length [of "requestId (hd (requestQueue s))" "activeRequests s"]
    by (simp add: admitFirst_def)
  ultimately have "int (length (activeRequests (admitFirst now s))) \<le> \<lceil>effectiveLimit rnd s\<rceil>"
    by linarith
  then have "real_of_int (int (length (activeRequests (admitFirst now s))))
               \<le> real_of_int \<lceil>effectiveLimit rnd s\<rceil>"
    by (simp only: of_int_le_iff)
  then have a: "real (length (activeRequests (admitFirst now s))) \<le> of_int \<lceil>effectiveLimit rnd s\<rceil>"
    by simp
  have "real (length (activeRequests (processQueue rnd now s)))
          \<le> max (real (length (activeRequests (admitFirst now s)))) (of_int \<lceil>effectiveLimit rnd s\<rceil>)"
    using 2(2) by (simp only: processQueue_step [OF 2(1)] admitFirst_limit)
  then show ?case using a by linarith
qed

lemma removeActiveRequest_length:
  "length (activeRequests (removeActiveRequest rid s)) \<le> length (activeRequests s)"
  by (simp add: removeActiveRequest_def set_delete_length)

lemma settle_active: "activeRequests (settle u v s) = activeRequests s"
  by (simp add: settle_def)

lemma operations_bound:
  "real (length (activeRequests (executeRequest rnd now rid sig s)))
     \<le> max (real (length (activeRequests s)))
           (of_int \<lceil>effectiveLimit rnd (executeRequest rnd now rid sig s)\<rceil>)"
  "real (length (activeRequests (itemResolve rnd now item s)))
     \<le> max (real (length (activeRequests s)))
           (of_int \<lceil>effectiveLimit rnd (itemResolve rnd now item s)\<rceil>)"
  "real (length (activeRequests (itemReject rnd now item err s)))
     \<le> max (real (length (activeRequests s)))
           (of_int \<lceil>effectiveLimit rnd (itemReject rnd now item err s)\<rceil>)"
proof -
  have gen: "real (length (activeRequests (processQueue rnd now m)))
          \<le> max (real (length (activeRequests s)))
                (of_int \<lceil>effectiveLimit rnd (processQueue rnd now m)\<rceil>)"
    if "length (activeRequests m) \<le> length (activeRequests s)" for m
    using processQueue_bound [of rnd now m] that
    by (simp only: processQueue_limit)
  show "real (length (activeRequests (executeRequest rnd now rid sig s)))
     \<le> max (real (length (activeRequests s)))
           (of_int \<lceil>effectiveLimit rnd (executeRequest rnd now rid sig s)\<rceil>)"
    unfolding executeRequest_def Let_def by (rule gen) simp
  show "real (length (activeRequests (itemResolve rnd now item s)))
     \<le> max (real (length (activeRequests s)))
           (of_int \<lceil>effectiveLimit rnd (itemResolve rnd now item s)\<rceil>)"
    unfolding itemResolve_def Let_def
    by (rule gen) (simp add: settle_active recordSuccess_def removeActiveRequest_length)
  show "real (length (activeRequests (itemReject rnd now item err s)))
     \<le> max (real (length (activeRequests s)))
           (of_int \<lceil>effectiveLimit rnd (itemReject rnd now item err s)\<rceil>)"
    unfolding itemReject_def Let_def
    by (rule gen) (simp add: settle_active recordError_def removeActiveRequest_length)
qed

lemma roundTiesToEven_le:
  assumes "t \<le> of_int n"
  shows "roundTiesToEven t \<le> n"
proof -
  have f: "\<lfloor>t\<rfloor> \<le> n" using assms by (simp add: floor_le_iff)
  show ?thesis
  proof (cases "\<lfloor>t\<rfloor> < n")
    case True
    then show ?thesis by (simp add: roundTiesToEven_def Let_def)
  next
    case False
    then have e: "\<lfloor>t\<rfloor> = n" using f by simp
    then have "of_int n \<le> t" using of_int_floor_le [of t] by simp
    then have "t = of_int n" using assms by simp
    then show ?thesis by (simp add: roundTiesToEven_def Let_def)
  qed
qed

lemma double_nonpos:
  assumes "x \<le> 0"
  shows "double x \<le> 0"
proof (cases "x = 0")
  case True
  then show ?thesis by (simp add: double_def)
next
  case False
  define e where "e = max \<lfloor>log 2 \<bar>x\<bar>\<rfloor> (- 1022) - 52"
  have p: "(0::real) < 2 powi e" by simp
  then have "x / 2 powi e \<le> of_int 0" using assms by (simp add: divide_nonpos_pos)
  then have "roundTiesToEven (x / 2 powi e) \<le> 0" by (rule roundTiesToEven_le)
  then have "of_int (roundTiesToEven (x / 2 powi e)) * 2 powi e \<le> (0::real)"
    using p by (simp add: mult_le_0_iff)
  then show ?thesis using False by (simp add: double_def Let_def e_def)
qed

lemma double_le_double:
  assumes "0 < x" and "x \<le> b" and "double b = b"
  shows "double x \<le> b"
proof -
  define ex where "ex = max \<lfloor>log 2 \<bar>x\<bar>\<rfloor> (- 1022) - 52"
  define eb where "eb = max \<lfloor>log 2 \<bar>b\<bar>\<rfloor> (- 1022) - 52"
  define k where "k = roundTiesToEven (b / 2 powi eb)"
  have b0: "0 < b" using assms(1,2) by linarith
  have "log 2 \<bar>x\<bar> \<le> log 2 \<bar>b\<bar>" using assms(1,2) b0 by simp
  then have "\<lfloor>log 2 \<bar>x\<bar>\<rfloor> \<le> \<lfloor>log 2 \<bar>b\<bar>\<rfloor>" by (rule floor_mono)
  then have le: "ex \<le> eb" by (simp add: ex_def eb_def)
  have bk: "b = of_int k * 2 powi eb"
    using assms(3) b0 by (simp add: double_def Let_def eb_def k_def)
  have "(2::real) powi eb = 2 powi (eb - ex) * 2 powi ex"
    by (simp flip: power_int_add)
  moreover have "(2::real) powi (eb - ex) = 2 ^ nat (eb - ex)"
    using le by (simp add: power_int_def)
  ultimately have bK: "b = of_int (k * 2 ^ nat (eb - ex)) * 2 powi ex"
    using bk by simp
  then have bdiv: "b / 2 powi ex = of_int (k * 2 ^ nat (eb - ex))" by simp
  have p: "(0::real) < 2 powi ex" by simp
  have "x / 2 powi ex \<le> b / 2 powi ex" using assms(2) p by (simp add: divide_right_mono)
  then have "roundTiesToEven (x / 2 powi ex) \<le> k * 2 ^ nat (eb - ex)"
    unfolding bdiv by (rule roundTiesToEven_le)
  then have "real_of_int (roundTiesToEven (x / 2 powi ex)) \<le> real_of_int (k * 2 ^ nat (eb - ex))"
    by (simp only: of_int_le_iff)
  then have "of_int (roundTiesToEven (x / 2 powi ex)) * 2 powi ex
              \<le> of_int (k * 2 ^ nat (eb - ex)) * (2::real) powi ex"
    using p by (simp only: mult_le_cancel_right_pos)
  also have "\<dots> = b" using bK by simp
  finally show ?thesis using assms(1) by (simp add: double_def Let_def ex_def)
qed

lemma throttled_le:
  assumes "0 \<le> c" and "c \<le> 1" and "double b = b"
  shows "real_of_int (max 1 \<lfloor>double (b * c)\<rfloor>) \<le> max 1 b"
proof (cases "b * c \<le> 0")
  case True
  then have "double (b * c) \<le> 0" by (rule double_nonpos)
  then have "\<lfloor>double (b * c)\<rfloor> \<le> 0" by (simp add: floor_le_iff)
  then have "max 1 \<lfloor>double (b * c)\<rfloor> = 1" by simp
  then show ?thesis by simp
next
  case False
  then have pos: "0 < b * c" by simp
  then have b0: "0 < b" using assms(1) by (simp add: zero_less_mult_iff)
  then have "b * c \<le> b" using assms(2) by simp
  then have "double (b * c) \<le> b" using double_le_double [of "b * c" b] pos assms(3) by simp
  moreover have "real_of_int \<lfloor>double (b * c)\<rfloor> \<le> double (b * c)" by (rule of_int_floor_le)
  ultimately have fl: "real_of_int \<lfloor>double (b * c)\<rfloor> \<le> b" by linarith
  show ?thesis
  proof (cases "1 \<le> \<lfloor>double (b * c)\<rfloor>")
    case True
    then have "max 1 \<lfloor>double (b * c)\<rfloor> = \<lfloor>double (b * c)\<rfloor>" by (rule max_absorb2)
    then show ?thesis using fl by simp
  next
    case False
    then have "max 1 \<lfloor>double (b * c)\<rfloor> = 1" by (simp only: max_def if_False)
    then show ?thesis by simp
  qed
qed

lemma double_0_5: "double 0.5 = 1 / 2"
  using double_eval [of "-1" "0.5"]
  by (simp add: roundTiesToEven_def Let_def power_int_minus)

lemma effectiveLimit_le:
  assumes "double (maxConcurrentRequests cfg) = maxConcurrentRequests cfg"
  shows "getEffectiveConcurrencyLimit double cfg pm \<le> max 1 (maxConcurrentRequests cfg)"
proof -
  have a: "real_of_int (max 1 \<lfloor>double (maxConcurrentRequests cfg * double 0.5)\<rfloor>)
             \<le> max 1 (maxConcurrentRequests cfg)"
    unfolding double_0_5 by (rule throttled_le [OF _ _ assms]) simp_all
  have b: "real_of_int (max 1 \<lfloor>double (maxConcurrentRequests cfg * double 0.7)\<rfloor>)
             \<le> max 1 (maxConcurrentRequests cfg)"
    unfolding double_0_7 by (rule throttled_le [OF _ _ assms]) simp_all
  show ?thesis
    using a b unfolding getEffectiveConcurrencyLimit_def Let_def by (simp only: split: if_splits) simp
qed

lemma admitFirst_config: "config (admitFirst now s) = config s"
  by (simp add: admitFirst_def)

lemma processQueue_config: "config (processQueue rnd now s) = config s"
proof (induction s rule: processQueue_induct_admit [where rnd = rnd and now = now])
  case (1 s)
  show ?case by (simp only: processQueue_stop [OF 1])
next
  case (2 s)
  show ?case using 2(2) by (simp only: processQueue_step [OF 2(1)] admitFirst_config)
qed

lemma operations_config:
  "config (executeRequest rnd now rid sig s) = config s"
  "config (itemResolve rnd now item s) = config s"
  "config (itemReject rnd now item err s) = config s"
  by (simp_all add: executeRequest_def itemResolve_def itemReject_def Let_def processQueue_config
      settle_def recordSuccess_def recordError_def removeActiveRequest_def)

lemma effectiveLimit_integer:
  assumes "maxConcurrentRequests (config s) \<in> \<int>"
  shows "of_int \<lceil>effectiveLimit rnd s\<rceil> = effectiveLimit rnd s"
proof -
  have "effectiveLimit rnd s \<in> \<int>"
    using assms by (simp add: effectiveLimit_def getEffectiveConcurrencyLimit_def Let_def)
  then show ?thesis by (simp add: Ints_def)
qed

lemma double_zero: "double 0 = 0"
  by (simp add: double_def)

lemma double_4: "double 4 = 4"
  using double_eval [of 2 4]
  by (simp add: roundTiesToEven_def Let_def power_int_minus)

lemma double_0_1: "double 0.1 = 3602879701896397 / 2 ^ 55"
  using double_eval [of "-4" "0.1"]
  by (simp add: roundTiesToEven_def Let_def power_int_minus)

lemma double_400000_times_0_1: "double (400000 * (3602879701896397 / 2 ^ 55)) = 40000"
  using double_eval [of 15 "400000 * (3602879701896397 / 2 ^ 55)"]
  by (simp add: roundTiesToEven_def Let_def power_int_minus)

lemma double_40000: "double 40000 = 40000"
  using double_eval [of 15 40000]
  by (simp add: roundTiesToEven_def Let_def power_int_minus)

lemma double_4_times_0_7: "double (4 * (6305039478318694 / 2 ^ 53)) = 6305039478318694 / 2 ^ 51"
  using double_eval [of 1 "4 * (6305039478318694 / 2 ^ 53)"]
  by (simp add: roundTiesToEven_def Let_def power_int_minus)

lemma fourRequests_state:
  "activeRequests fourRequests = [''a'', ''b'', ''c'', ''d''] \<and> requestQueue fourRequests = []
   \<and> started fourRequests = [0, 1, 2, 3]
   \<and> config fourRequests = \<lparr>maxConcurrentRequests = 4, queueTimeout = 120000,
                         adaptiveThrottling = True\<rparr>
   \<and> performanceMetrics fourRequests
       = \<lparr>averageResponseTime = 0, errorRate = 0, queueWaitTimes = [0, 0, 0, 0]\<rparr>"
proof -
  have d: "double (1 / 5) = 3602879701896397 / 2 ^ 54"
    using double_0_2 by simp
  show ?thesis
    by (simp add: d fourRequests_def executeRequest_def newManager_def processQueue.simps
      effectiveLimit_def getEffectiveConcurrencyLimit_def set_add_def set_delete_def Let_def)
qed

lemma afterSlowResponse_state:
  "activeRequests afterSlowResponse = [''b'', ''c'', ''d'']
   \<and> config afterSlowResponse = \<lparr>maxConcurrentRequests = 4, queueTimeout = 120000,
                         adaptiveThrottling = True\<rparr>
   \<and> performanceMetrics afterSlowResponse
       = \<lparr>averageResponseTime = 40000, errorRate = 0, queueWaitTimes = [0, 0, 0, 0]\<rparr>"
proof -
  have a: "double (1 / 10) = 3602879701896397 / 2 ^ 55"
    using double_0_1 by simp
  have b: "double (11258999068426240625 / 281474976710656) = 40000"
    using double_400000_times_0_1 by simp
  show ?thesis
    using fourRequests_state
    by (simp add: a b double_zero double_40000 afterSlowResponse_def workSucceeded_def
        itemResolve_def recordSuccess_def updatePerformanceMetrics_def settle_def
        removeActiveRequest_def processQueue.simps set_delete_def Let_def)
qed

text \<open>
  Claim C3 says that at every instant \<open>activeRequests.size\<close> is at most the effective
  limit, which is at most \<open>maxConcurrentRequests\<close>. What the code ensures is a bound on
  admission: \<open>processQueue\<close> adds a request only while the size is below the limit, and
  nothing ever takes a request out of \<open>activeRequests\<close> because the limit went down.
  For a \<open>maxConcurrentRequests\<close> that is an integer and a double:
  the limit is at most \<open>max(1, maxConcurrentRequests)\<close>; \<open>processQueue\<close> does not change
  the limit; and after \<open>processQueue\<close>, after \<open>executeRequest\<close> and after the \<open>resolve\<close>
  and \<open>reject\<close> closures of an item (the callers of \<open>processQueue\<close>) the size is at most
  the larger of the size before the call and the limit after it.
\<close>

theorem C3_admission_bound:
  assumes "maxConcurrentRequests (config s) \<in> \<int>"
    and "double (maxConcurrentRequests (config s)) = maxConcurrentRequests (config s)"
  shows "effectiveLimit double s \<le> max 1 (maxConcurrentRequests (config s))
    \<and> effectiveLimit double (processQueue double now s) = effectiveLimit double s
    \<and> real (length (activeRequests (processQueue double now s)))
        \<le> max (real (length (activeRequests s))) (effectiveLimit double s)
    \<and> real (length (activeRequests (executeRequest double now rid sig s)))
        \<le> max (real (length (activeRequests s)))
              (effectiveLimit double (executeRequest double now rid sig s))
    \<and> real (length (activeRequests (itemResolve double now item s)))
        \<le> max (real (length (activeRequests s)))
              (effectiveLimit double (itemResolve double now item s))
    \<and> real (length (activeRequests (itemReject double now item err s)))
        \<le> max (real (length (activeRequests s)))
              (effectiveLimit double (itemReject double now item err s))"
proof -
  have a: "effectiveLimit double s \<le> max 1 (maxConcurrentRequests (config s))"
    unfolding effectiveLimit_def by (rule effectiveLimit_le [OF assms(2)])
  have b: "effectiveLimit double (processQueue double now s) = effectiveLimit double s"
    by (rule processQueue_limit)
  have c: "real (length (activeRequests (processQueue double now s)))
        \<le> max (real (length (activeRequests s))) (effectiveLimit double s)"
    using processQueue_bound [of double now s]
    by (simp only: effectiveLimit_integer [OF assms(1)])
  have i1: "maxConcurrentRequests (config (executeRequest double now rid sig s)) \<in> \<int>"
    using assms(1) by (simp only: operations_config)
  have i2: "maxConcurrentRequests (config (itemResolve double now item s)) \<in> \<int>"
    using assms(1) by (simp only: operations_config)
  have i3: "maxConcurrentRequests (config (itemReject double now item err s)) \<in> \<int>"
    using assms(1) by (simp only: operations_config)
  have d: "real (length (activeRequests (executeRequest double now rid sig s)))
        \<le> max (real (length (activeRequests s)))
              (effectiveLimit double (executeRequest double now rid sig s))"
    using operations_bound(1) [of double now rid sig s]
    by (simp only: effectiveLimit_integer [OF i1])
  have e: "real (length (activeRequests (itemResolve double now item s)))
        \<le> max (real (length (activeRequests s)))
              (effectiveLimit double (itemResolve double now item s))"
    using operations_bound(2) [of double now item s]
    by (simp only: effectiveLimit_integer [OF i2])
  have f: "real (length (activeRequests (itemReject double now item err s)))
        \<le> max (real (length (activeRequests s)))
              (effectiveLimit double (itemReject double now item err s))"
    using operations_bound(3) [of double now item err s]
    by (simp only: effectiveLimit_integer [OF i3])
  show ?thesis using a b c d e f by (intro conjI)
qed

text \<open>
  Witness for C3: the manager with four active requests, a fifth request, and the
  completion of the first.
\<close>

theorem C3_admission_bound_witness:
  "maxConcurrentRequests (config fourRequests) \<in> \<int>
   \<and> double (maxConcurrentRequests (config fourRequests))
       = maxConcurrentRequests (config fourRequests)
   \<and> effectiveLimit double fourRequests \<le> max 1 (maxConcurrentRequests (config fourRequests))
   \<and> real (length (activeRequests (executeRequest double 0 ''e'' False fourRequests)))
        \<le> max (real (length (activeRequests fourRequests)))
              (effectiveLimit double (executeRequest double 0 ''e'' False fourRequests))
   \<and> real (length (activeRequests
               (itemResolve double 400000 \<lparr>requestId = ''a'', startTime = 0, uid = 0\<rparr>
                  fourRequests)))
        \<le> max (real (length (activeRequests fourRequests)))
              (effectiveLimit double
                 (itemResolve double 400000 \<lparr>requestId = ''a'', startTime = 0, uid = 0\<rparr>
                    fourRequests))"
proof -
  have c: "maxConcurrentRequests (config fourRequests) = 4"
    using fourRequests_state by simp
  have i: "maxConcurrentRequests (config fourRequests) \<in> \<int>"
    unfolding c by simp
  have d: "double (maxConcurrentRequests (config fourRequests))
             = maxConcurrentRequests (config fourRequests)"
    unfolding c by (rule double_4)
  show ?thesis
    using i d
      C3_admission_bound [OF i d, where now = 0 and rid = "''e''" and sig = False]
      C3_admission_bound [OF i d, where now = 400000
        and item = "\<lparr>requestId = ''a'', startTime = 0, uid = 0\<rparr>"]
    by blast
qed

text \<open>
  Counterexamples to C3 as stated. After four requests were admitted under the limit 4,
  the first completes after 400000 ms: the average response time becomes 40000, the
  limit falls to \<open>max(1, floor(4 * 0.7)) = 2\<close>, and three requests are still active.
  After \<open>updateConfig({maxConcurrentRequests: 1})\<close> the four requests are still active
  under the limit 1. After \<open>updateConfig({maxConcurrentRequests: 0})\<close> in the slow state
  the limit is \<open>max(1, floor(0 * 0.7)) = 1\<close>, above \<open>maxConcurrentRequests\<close>.
\<close>

theorem C3_counterexample:
  "length (activeRequests afterSlowResponse) = 3
   \<and> effectiveLimit double afterSlowResponse = 2
   \<and> \<not> real (length (activeRequests afterSlowResponse)) \<le> effectiveLimit double afterSlowResponse
   \<and> (let s = updateConfig \<lparr>new_maxConcurrentRequests = Some 1, new_queueTimeout = None,
                              new_adaptiveThrottling = None\<rparr> fourRequests
      in length (activeRequests s) = 4 \<and> effectiveLimit double s = 1
         \<and> \<not> real (length (activeRequests s)) \<le> effectiveLimit double s)
   \<and> (let s = updateConfig \<lparr>new_maxConcurrentRequests = Some 0, new_queueTimeout = None,
                              new_adaptiveThrottling = None\<rparr> afterSlowResponse
      in effectiveLimit double s = 1 \<and> maxConcurrentRequests (config s) = 0
         \<and> \<not> effectiveLimit double s \<le> maxConcurrentRequests (config s))"
proof -
  let ?pm = "\<lparr>averageResponseTime = 40000, errorRate = 0, queueWaitTimes = [0, 0, 0, 0]\<rparr>"
  let ?qm = "\<lparr>averageResponseTime = 0, errorRate = 0, queueWaitTimes = [0, 0, 0, 0]\<rparr>"
  let ?cfour = "\<lparr>maxConcurrentRequests = 4, queueTimeout = 120000, adaptiveThrottling = True\<rparr>"
  let ?cone = "\<lparr>maxConcurrentRequests = 1, queueTimeout = 120000, adaptiveThrottling = True\<rparr>"
  let ?czero = "\<lparr>maxConcurrentRequests = 0, queueTimeout = 120000, adaptiveThrottling = True\<rparr>"
  have "(0::real) \<le> 3602879701896397 / 2 ^ 54" by simp
  then have e: "\<not> errorRate ?pm > double 0.2"
    by (simp only: double_0_2 PerformanceMetrics.select_convs not_less)
  have e0: "\<not> errorRate ?qm > double 0.2"
    using e by simp
  have t: "averageResponseTime ?pm > 30000" by simp
  have a4: "adaptiveThrottling ?cfour" by simp
  have a0: "adaptiveThrottling ?czero" by simp
  have "double (maxConcurrentRequests ?cfour * double 0.7) = 6305039478318694 / 2 ^ 51"
    by (simp only: ConcurrencyConfig.select_convs double_0_7 double_4_times_0_7)
  moreover have "\<lfloor>(6305039478318694::real) / 2 ^ 51\<rfloor> = 2" by (simp add: floor_eq_iff)
  ultimately have l4: "getEffectiveConcurrencyLimit double ?cfour ?pm = 2"
    by (simp only: limit_when_slow [where cfg = ?cfour and pm = ?pm and rnd = double, OF a4 e t])
  have "double (maxConcurrentRequests ?czero * double 0.7) = 0"
    by (simp only: ConcurrencyConfig.select_convs mult_zero_left double_zero)
  then have l0: "getEffectiveConcurrencyLimit double ?czero ?pm = 1"
    by (simp only: limit_when_slow [where cfg = ?czero and pm = ?pm and rnd = double, OF a0 e t])
      simp
  have l1: "getEffectiveConcurrencyLimit double ?cone ?qm = 1"
    using e0 by (simp add: getEffectiveConcurrencyLimit_def)
  have p1: "length (activeRequests afterSlowResponse) = 3
      \<and> effectiveLimit double afterSlowResponse = 2
      \<and> \<not> real (length (activeRequests afterSlowResponse)) \<le> effectiveLimit double afterSlowResponse"
    using afterSlowResponse_state l4 by (simp add: effectiveLimit_def)
  have p2: "(let s = updateConfig \<lparr>new_maxConcurrentRequests = Some 1, new_queueTimeout = None,
                              new_adaptiveThrottling = None\<rparr> fourRequests
      in length (activeRequests s) = 4 \<and> effectiveLimit double s = 1
         \<and> \<not> real (length (activeRequests s)) \<le> effectiveLimit double s)"
    using fourRequests_state l1 by (simp add: effectiveLimit_def updateConfig_def)
  have p3: "(let s = updateConfig \<lparr>new_maxConcurrentRequests = Some 0, new_queueTimeout = None,
                              new_adaptiveThrottling = None\<rparr> afterSlowResponse
      in effectiveLimit double s = 1 \<and> maxConcurrentRequests (config s) = 0
         \<and> \<not> effectiveLimit double s \<le> maxConcurrentRequests (config s))"
    using afterSlowResponse_state l0 by (simp add: effectiveLimit_def updateConfig_def)
  show ?thesis using p1 p2 p3 by simp
qed

end
